theory Spec2Isabelle
  imports Main "HOL-Library.Sublist" "HOL-Library.Multiset" "HOL-Library.AList"
begin

section \<open>The intermediate representation as the builder reads it\<close>

text \<open>
  A function handle (\<^verbatim>\<open>const llvm::Function *\<close>) is an identity; so is a type handle.
  An instruction handle (\<^verbatim>\<open>const llvm::Instruction *\<close>) is identified by the function
  it belongs to and its position in that function: \<^verbatim>\<open>CS->getFunction()\<close> is the first
  component, and \<^verbatim>\<open>llvm::instructions(F)\<close> enumerates the handles of \<open>F\<close> in
  program order.
\<close>

type_synonym func = nat
type_synonym ty = nat
type_synonym inst = "func \<times> nat"
type_synonym vertex_t = nat

text \<open>
  What the builder looks at in an instruction: whether it is a \<^verbatim>\<open>llvm::CallBase\<close>, and for
  a call its \<^verbatim>\<open>getCalledFunction()\<close> (null when the call is not direct), the name of
  \<^verbatim>\<open>getCalledOperand()->stripPointerCasts()\<close> when that value has one, and whether that
  value is an \<^verbatim>\<open>llvm::InlineAsm\<close>.
\<close>

datatype instr =
    CallBase "func option" "string option" bool
  | OtherInst

text \<open>
  The project IR database, the receiver-type and vtable-index helpers and the type
  hierarchy are collaborators of the builder; their operations are parameters here.
\<close>

record irdb =
  getAllFunctions :: "func list"
  getNumberOfModules :: nat
  isDeclaration :: "func \<Rightarrow> bool"
  getName :: "func \<Rightarrow> string option"
  body :: "func \<Rightarrow> instr list"
  getFunction :: "string \<Rightarrow> func option"
  getFunctionDefinition :: "string \<Rightarrow> func option"
  getReceiverType :: "inst \<Rightarrow> ty option"
  getVFTIndex :: "inst \<Rightarrow> int"

record type_hierarchy =
  hasType :: "ty \<Rightarrow> bool"
  hasVFTable :: "ty \<Rightarrow> bool"

definition instructions :: "irdb \<Rightarrow> func \<Rightarrow> inst list" where
  "instructions D F = map (Pair F) [0..<length (body D F)]"

definition instrAt :: "irdb \<Rightarrow> inst \<Rightarrow> instr" where
  "instrAt D n = (if snd n < length (body D (fst n)) then body D (fst n) ! snd n else OtherInst)"

definition isCallBase :: "irdb \<Rightarrow> inst \<Rightarrow> bool" where
  "isCallBase D n = (case instrAt D n of CallBase _ _ _ \<Rightarrow> True | OtherInst \<Rightarrow> False)"

section \<open>The call graph\<close>

text \<open>
  \<^verbatim>\<open>bidigraph_t\<close> is a Boost adjacency list with vertex property \<^verbatim>\<open>F\<close> and edge property
  \<^verbatim>\<open>CS\<close>. Vertex descriptors are the indices \<open>0, 1, \<dots>\<close> in creation order;
  \<^verbatim>\<open>boost::add_vertex\<close> returns the new index and \<^verbatim>\<open>boost::add_edge\<close> adds an edge
  whatever the graph already holds (the builder itself throws out targets that are
  already connected before it adds edges). The order in which \<^verbatim>\<open>boost::out_edges\<close>
  enumerates is fixed here to insertion order.
\<close>

record bidigraph =
  vertices :: "func list"
  edges :: "(vertex_t \<times> vertex_t \<times> inst) list"

definition empty_graph :: bidigraph where
  "empty_graph = \<lparr>vertices = [], edges = []\<rparr>"

definition add_vertex :: "func \<Rightarrow> bidigraph \<Rightarrow> vertex_t \<times> bidigraph" where
  "add_vertex F g = (length (vertices g), g\<lparr>vertices := vertices g @ [F]\<rparr>)"

definition add_edge :: "vertex_t \<Rightarrow> vertex_t \<Rightarrow> inst \<Rightarrow> bidigraph \<Rightarrow> bidigraph" where
  "add_edge u v cs g = g\<lparr>edges := edges g @ [(u, v, cs)]\<rparr>"

definition out_edges :: "vertex_t \<Rightarrow> bidigraph \<Rightarrow> (vertex_t \<times> vertex_t \<times> inst) list" where
  "out_edges v g = filter (\<lambda>e. fst e = v) (edges g)"

definition edgeTarget :: "vertex_t \<times> vertex_t \<times> inst \<Rightarrow> vertex_t" where
  "edgeTarget e = fst (snd e)"

definition edgeCS :: "vertex_t \<times> vertex_t \<times> inst \<Rightarrow> inst" where
  "edgeCS e = snd (snd e)"

text \<open>The functions on the far end of the out-edges of \<open>v\<close> that carry call site \<open>cs\<close>.\<close>

definition connectedTargets :: "bidigraph \<Rightarrow> vertex_t \<Rightarrow> inst \<Rightarrow> func list" where
  "connectedTargets g v cs =
     map (\<lambda>e. vertices g ! edgeTarget e) (filter (\<lambda>e. edgeCS e = cs) (out_edges v g))"

section \<open>The resolver\<close>

text \<open>
  A resolver is an object with state \<open>'r\<close> and six virtual hooks. The two resolve hooks
  return a set of functions, given here as a list whose duplicates do not count.
  Every hook call is also written to a log, so that the order of calls can be stated.
\<close>

record 'r resolver =
  preCall :: "inst \<Rightarrow> 'r \<Rightarrow> 'r"
  postCall :: "inst \<Rightarrow> 'r \<Rightarrow> 'r"
  otherInst :: "inst \<Rightarrow> 'r \<Rightarrow> 'r"
  handlePossibleTargets :: "inst \<Rightarrow> func list \<Rightarrow> 'r \<Rightarrow> 'r"
  resolveVirtualCall :: "inst \<Rightarrow> 'r \<Rightarrow> func list \<times> 'r"
  resolveFunctionPointer :: "inst \<Rightarrow> 'r \<Rightarrow> func list \<times> 'r"

datatype hook =
    PreCall inst
  | PostCall inst
  | OtherInstHook inst
  | HandlePossibleTargets inst "func list"
  | ResolveVirtualCall inst
  | ResolveFunctionPointer inst

section \<open>The builder\<close>

record 'r env =
  IRDB :: irdb
  TH :: "type_hierarchy option"
  ResV :: "'r resolver"

text \<open>
  The mutable state of \<^verbatim>\<open>LLVMBasedICFG::Builder\<close> together with the graph under
  construction (\<^verbatim>\<open>Ret\<close> in \<^verbatim>\<open>buildCallGraph\<close>, passed by reference). The worklist is a
  vector used as a stack: its back is the head of the list. \<^verbatim>\<open>IndirectCalls\<close> is
  iterated, so it is an association list, in insertion order. The count is an
  \<^verbatim>\<open>unsigned\<close>; a target set holds distinct functions of the program, far fewer than
  \<open>2 ^ 32\<close>, and the count is a natural number here.
\<close>

record 'r builder =
  Res :: 'r
  VisitedFunctions :: "func set"
  FunctionVertexMap :: "func \<rightharpoonup> vertex_t"
  FunctionWL :: "func option list"
  IndirectCalls :: "(inst \<times> nat) list"
  CallGraph :: bidigraph
  HookLog :: "hook list"

datatype error = Terminated | AssertionFailed | NullDereference

definition callHook :: "hook \<Rightarrow> ('r \<Rightarrow> 'r) \<Rightarrow> 'r builder \<Rightarrow> 'r builder" where
  "callHook h f s = s\<lparr>Res := f (Res s), HookLog := HookLog s @ [h]\<rparr>"

text \<open>\<^verbatim>\<open>FunctionVertexMap->try_emplace(F, vertex_t{})\<close>, followed by \<^verbatim>\<open>add_vertex\<close> when inserted.\<close>

definition vertexFor :: "func \<Rightarrow> 'r builder \<Rightarrow> vertex_t \<times> 'r builder" where
  "vertexFor F s =
     (case FunctionVertexMap s F of
        Some v \<Rightarrow> (v, s)
      | None \<Rightarrow>
          (case add_vertex F (CallGraph s) of
             (v, g) \<Rightarrow> (v, s\<lparr>FunctionVertexMap := (FunctionVertexMap s)(F \<mapsto> v), CallGraph := g\<rparr>)))"

text \<open>
  The loop over \<^verbatim>\<open>PossibleTargets\<close>, the same text in \<^verbatim>\<open>processFunction\<close> and in
  \<^verbatim>\<open>constructDynamicCall\<close>: a vertex for the target, an edge to it, the target pushed
  on the worklist.
\<close>

definition insertTarget :: "vertex_t \<Rightarrow> inst \<Rightarrow> func \<Rightarrow> 'r builder \<Rightarrow> 'r builder" where
  "insertTarget u cs t s =
     (case vertexFor t s of
        (tv, s1) \<Rightarrow> s1\<lparr>CallGraph := add_edge u tv cs (CallGraph s1),
                        FunctionWL := Some t # FunctionWL s1\<rparr>)"

definition insertTargets :: "vertex_t \<Rightarrow> inst \<Rightarrow> func list \<Rightarrow> 'r builder \<Rightarrow> 'r builder" where
  "insertTargets u cs ts s = fold (insertTarget u cs) ts s"

text \<open>The statically known callee of a call, if there is one.\<close>

definition staticCallee :: "irdb \<Rightarrow> func option \<Rightarrow> string option \<Rightarrow> func option" where
  "staticCallee D cf nm =
     (case cf of
        Some f \<Rightarrow> Some f
      | None \<Rightarrow> (case nm of None \<Rightarrow> None | Some name \<Rightarrow> getFunction D name))"

text \<open>One round of the instruction loop of \<^verbatim>\<open>processFunction\<close>.\<close>

definition processInst ::
  "'r env \<Rightarrow> vertex_t \<Rightarrow> inst \<Rightarrow> bool \<times> 'r builder \<Rightarrow> bool \<times> 'r builder" where
  "processInst E v I x =
     (case instrAt (IRDB E) I of
        OtherInst \<Rightarrow> (fst x, callHook (OtherInstHook I) (otherInst (ResV E) I) (snd x))
      | CallBase cf nm asm \<Rightarrow>
          (let s1 = callHook (PreCall I) (preCall (ResV E) I) (snd x) in
           case staticCallee (IRDB E) cf nm of
             Some t \<Rightarrow>
               (let s2 = callHook (HandlePossibleTargets I [t])
                           (handlePossibleTargets (ResV E) I [t]) s1;
                    s3 = insertTargets v I [t] s2
                in (fst x, callHook (PostCall I) (postCall (ResV E) I) s3))
           | None \<Rightarrow>
               if asm then (fst x, s1)
               else (False, s1\<lparr>IndirectCalls := AList.update I 0 (IndirectCalls s1)\<rparr>)))"

definition processFunction :: "'r env \<Rightarrow> func \<Rightarrow> 'r builder \<Rightarrow> bool \<times> 'r builder" where
  "processFunction E F s =
     (if isDeclaration (IRDB E) F \<or> F \<in> VisitedFunctions s then (True, s)
      else
        (case vertexFor F (s\<lparr>VisitedFunctions := insert F (VisitedFunctions s)\<rparr>) of
           (v, s1) \<Rightarrow> fold (processInst E v) (instructions (IRDB E) F) (True, s1)))"

definition internalIsVirtualFunctionCall :: "irdb \<Rightarrow> inst \<Rightarrow> type_hierarchy \<Rightarrow> bool" where
  "internalIsVirtualFunctionCall D Inst T =
     (if \<not> isCallBase D Inst then False
      else
        (case getReceiverType D Inst of
           None \<Rightarrow> False
         | Some RecType \<Rightarrow>
             if \<not> hasType T RecType then False
             else if \<not> hasVFTable T RecType then False
             else getVFTIndex D Inst \<ge> 0))"

definition resolve :: "'r env \<Rightarrow> type_hierarchy \<Rightarrow> inst \<Rightarrow> 'r builder \<Rightarrow> func list \<times> 'r builder" where
  "resolve E T CS s =
     (if internalIsVirtualFunctionCall (IRDB E) CS T
      then (case resolveVirtualCall (ResV E) CS (Res s) of
              (ts, r) \<Rightarrow> (remdups ts, s\<lparr>Res := r, HookLog := HookLog s @ [ResolveVirtualCall CS]\<rparr>))
      else (case resolveFunctionPointer (ResV E) CS (Res s) of
              (ts, r) \<Rightarrow> (remdups ts, s\<lparr>Res := r, HookLog := HookLog s @ [ResolveFunctionPointer CS]\<rparr>)))"

definition constructDynamicCall ::
  "'r env \<Rightarrow> inst \<Rightarrow> 'r builder \<Rightarrow> error + (bool \<times> 'r builder)" where
  "constructDynamicCall E CS s =
     (case FunctionVertexMap s (fst CS) of
        None \<Rightarrow> Inl Terminated
      | Some v \<Rightarrow>
          if \<not> isCallBase (IRDB E) CS
          then Inr (False, callHook (OtherInstHook CS) (otherInst (ResV E) CS) s)
          else
            (let s1 = callHook (PreCall CS) (preCall (ResV E) CS) s in
             case TH E of
               None \<Rightarrow> Inl AssertionFailed
             | Some T \<Rightarrow>
                 (case resolve E T CS s1 of
                    (PossibleTargets, s2) \<Rightarrow>
                      (case map_of (IndirectCalls s2) CS of
                         None \<Rightarrow> Inl AssertionFailed
                       | Some NumIndCalls \<Rightarrow>
                           if NumIndCalls < length PossibleTargets then
                             (let s3 = s2\<lparr>IndirectCalls :=
                                          AList.update CS (length PossibleTargets) (IndirectCalls s2)\<rparr>;
                                  Remaining = filter (\<lambda>t. t \<notin> set (connectedTargets (CallGraph s3) v CS))
                                                PossibleTargets;
                                  s4 = callHook (HandlePossibleTargets CS Remaining)
                                         (handlePossibleTargets (ResV E) CS Remaining) s3;
                                  s5 = insertTargets v CS Remaining s4
                              in Inr (True, callHook (PostCall CS) (postCall (ResV E) CS) s5))
                           else Inr (False, s2)))))"

text \<open>The inner \<^verbatim>\<open>while (!FunctionWL.empty())\<close> loop; a null worklist entry is dereferenced.\<close>

partial_function (option) drainWorklist ::
  "'r env \<Rightarrow> bool \<Rightarrow> 'r builder \<Rightarrow> (error + (bool \<times> 'r builder)) option" where
  "drainWorklist E FixpointReached s =
     (case FunctionWL s of
        [] \<Rightarrow> Some (Inr (FixpointReached, s))
      | None # wl \<Rightarrow> Some (Inl NullDereference)
      | Some F # wl \<Rightarrow>
          (case processFunction E F (s\<lparr>FunctionWL := wl\<rparr>) of
             (b, s') \<Rightarrow> drainWorklist E (FixpointReached \<and> b) s'))"

text \<open>The \<^verbatim>\<open>for (auto [CS, _] : IndirectCalls)\<close> loop; the keys do not change while it runs.\<close>

fun indirectPass ::
  "'r env \<Rightarrow> inst list \<Rightarrow> bool \<Rightarrow> 'r builder \<Rightarrow> error + (bool \<times> 'r builder)" where
  "indirectPass E [] FixpointReached s = Inr (FixpointReached, s)"
| "indirectPass E (CS # rest) FixpointReached s =
     (case constructDynamicCall E CS s of
        Inl e \<Rightarrow> Inl e
      | Inr (NewTargetsFound, s') \<Rightarrow> indirectPass E rest (FixpointReached \<and> \<not> NewTargetsFound) s')"

text \<open>One round of the \<^verbatim>\<open>do \<dots> while (!FixpointReached)\<close> loop.\<close>

definition iteration :: "'r env \<Rightarrow> 'r builder \<Rightarrow> (error + (bool \<times> 'r builder)) option" where
  "iteration E s =
     (case drainWorklist E True s of
        None \<Rightarrow> None
      | Some (Inl e) \<Rightarrow> Some (Inl e)
      | Some (Inr (FixpointReached, s1)) \<Rightarrow>
          Some (indirectPass E (map fst (IndirectCalls s1)) FixpointReached s1))"

partial_function (option) fixpointLoop ::
  "'r env \<Rightarrow> 'r builder \<Rightarrow> (error + 'r builder) option" where
  "fixpointLoop E s =
     (case iteration E s of
        None \<Rightarrow> None
      | Some (Inl e) \<Rightarrow> Some (Inl e)
      | Some (Inr (FixpointReached, s')) \<Rightarrow>
          if FixpointReached then Some (Inr s') else fixpointLoop E s')"

datatype Soundness = Invalid | Soundy | Sound | Unsound

text \<open>The builder before \<^verbatim>\<open>buildCallGraph\<close> runs: a resolver, a worklist, and nothing else.\<close>

definition initialBuilder :: "'r \<Rightarrow> func option list \<Rightarrow> 'r builder" where
  "initialBuilder r wl =
     \<lparr>Res = r, VisitedFunctions = {}, FunctionVertexMap = Map.empty, FunctionWL = wl,
      IndirectCalls = [], CallGraph = empty_graph, HookLog = []\<rparr>"

text \<open>
  \<^verbatim>\<open>buildCallGraph\<close> runs the loop and returns the graph; the builder it leaves behind is
  returned with it here. The soundness value is a parameter without a name in the source.
  The warnings for sites without callees, logged after the loop, change nothing.
\<close>

definition buildCallGraph :: "Soundness \<Rightarrow> 'r env \<Rightarrow> 'r builder \<Rightarrow> (error + 'r builder) option" where
  "buildCallGraph S E s = fixpointLoop E s"

section \<open>Construction of the ICFG\<close>

datatype CallGraphAnalysisType = NORESOLVE | CHA | RTA | DTA | VTA | OTF | CGInvalid

text \<open>
  \<^verbatim>\<open>initEntryPoints\<close> fills the vector \<^verbatim>\<open>UserEntryPoints\<close> (empty before the call) and
  logs warnings; both are returned. An entry is a pointer, \<open>None\<close> when null: the
  \<^verbatim>\<open>__ALL__\<close> branch pushes whatever \<^verbatim>\<open>getFunctionDefinition\<close> returns.
\<close>

fun allEntryPoints :: "irdb \<Rightarrow> func list \<Rightarrow> func option list" where
  "allEntryPoints D [] = []"
| "allEntryPoints D (Fun # rest) =
     (if \<not> isDeclaration D Fun
      then (case getName D Fun of
              Some name \<Rightarrow> getFunctionDefinition D name # allEntryPoints D rest
            | None \<Rightarrow> allEntryPoints D rest)
      else allEntryPoints D rest)"

fun namedEntryPoints :: "irdb \<Rightarrow> string list \<Rightarrow> func option list \<times> string list" where
  "namedEntryPoints D [] = ([], [])"
| "namedEntryPoints D (EntryPoint # rest) =
     (case namedEntryPoints D rest of
        (fs, warnings) \<Rightarrow>
          (case getFunctionDefinition D EntryPoint of
             None \<Rightarrow> (fs, EntryPoint # warnings)
           | Some F \<Rightarrow> (Some F # fs, warnings)))"

definition initEntryPoints :: "irdb \<Rightarrow> string list \<Rightarrow> func option list \<times> string list" where
  "initEntryPoints D EntryPoints =
     (if length EntryPoints = 1 \<and> hd EntryPoints = ''__ALL__''
      then (allEntryPoints D (getAllFunctions D), [])
      else namedEntryPoints D EntryPoints)"

text \<open>
  What the constructor obtains from elsewhere: the resolver factory, the type hierarchy
  and points-to set it builds on demand, and the model of the global constructors, which
  adds a function to the module.
\<close>

record ('r, 'pt) externals =
  Resolver_create ::
    "CallGraphAnalysisType \<Rightarrow> irdb \<Rightarrow> type_hierarchy option \<Rightarrow> 'pt option \<Rightarrow> 'r resolver \<times> 'r"
  makeTypeHierarchy :: "irdb \<Rightarrow> type_hierarchy"
  makePointsToSet :: "irdb \<Rightarrow> 'pt"
  buildCRuntimeGlobalCtorsDtorsModel :: "irdb \<Rightarrow> func option list \<Rightarrow> func \<times> irdb"

definition initGlobalsAndWorkList ::
  "('r, 'pt) externals \<Rightarrow> irdb \<Rightarrow> func option list \<Rightarrow> bool \<Rightarrow> error + (func option list \<times> irdb)" where
  "initGlobalsAndWorkList X D UserEntryPoints IncludeGlobals =
     (if IncludeGlobals then
        (if getNumberOfModules D \<noteq> 1 then Inl AssertionFailed
         else (case buildCRuntimeGlobalCtorsDtorsModel X D UserEntryPoints of
                 (GlobCtor, D') \<Rightarrow> Inr ([Some GlobCtor], D')))
      else Inr (rev UserEntryPoints, D))"

definition builderTH ::
  "('r, 'pt) externals \<Rightarrow> irdb \<Rightarrow> CallGraphAnalysisType \<Rightarrow> type_hierarchy option \<Rightarrow> type_hierarchy option" where
  "builderTH X D CGType T =
     (if T = None \<and> CGType \<noteq> NORESOLVE then Some (makeTypeHierarchy X D) else T)"

definition builderPT ::
  "('r, 'pt) externals \<Rightarrow> irdb \<Rightarrow> CallGraphAnalysisType \<Rightarrow> 'pt option \<Rightarrow> 'pt option" where
  "builderPT X D CGType PT =
     (if PT = None \<and> CGType = OTF then Some (makePointsToSet X D) else PT)"

text \<open>The resolver the constructor creates, with its state right after creation.\<close>

definition createdResolver ::
  "('r, 'pt) externals \<Rightarrow> irdb \<Rightarrow> CallGraphAnalysisType \<Rightarrow> type_hierarchy option \<Rightarrow> 'pt option \<Rightarrow>
     Soundness \<Rightarrow> 'r resolver \<times> 'r" where
  "createdResolver X D CGType T PT S =
     Resolver_create X CGType D (builderTH X D CGType T) (builderPT X D CGType PT)"

definition LLVMBasedICFG ::
  "('r, 'pt) externals \<Rightarrow> irdb \<Rightarrow> CallGraphAnalysisType \<Rightarrow> string list \<Rightarrow> type_hierarchy option \<Rightarrow>
     'pt option \<Rightarrow> Soundness \<Rightarrow> bool \<Rightarrow> (error + 'r builder) option" where
  "LLVMBasedICFG X D CGType EntryPoints T PT S IncludeGlobals =
     (case createdResolver X D CGType T PT S of
        (ops, r) \<Rightarrow>
          (case initGlobalsAndWorkList X D (fst (initEntryPoints D EntryPoints)) IncludeGlobals of
             Inl e \<Rightarrow> Some (Inl e)
           | Inr (wl, D') \<Rightarrow>
               buildCallGraph S
                 \<lparr>IRDB = D', TH = builderTH X D CGType T, ResV = ops\<rparr>
                 (initialBuilder r wl)))"

section \<open>Queries\<close>

definition isVirtualFunctionCallImpl :: "irdb \<Rightarrow> type_hierarchy \<Rightarrow> inst \<Rightarrow> bool" where
  "isVirtualFunctionCallImpl D T Inst = internalIsVirtualFunctionCall D Inst T"

definition getCalleesOfCallAtImpl ::
  "irdb \<Rightarrow> (func \<rightharpoonup> vertex_t) \<Rightarrow> bidigraph \<Rightarrow> inst \<Rightarrow> func list" where
  "getCalleesOfCallAtImpl D FVM g Inst =
     (if \<not> isCallBase D Inst then []
      else
        (case FVM (fst Inst) of
           None \<Rightarrow> []
         | Some v \<Rightarrow>
             map (\<lambda>e. vertices g ! edgeTarget e) (filter (\<lambda>e. Inst = edgeCS e) (out_edges v g))))"

section \<open>The flow function along a call site\<close>

text \<open>
  \<^verbatim>\<open>MapFactsAlongsideCallSite::computeTargets\<close>. A fact is a value handle; the test for
  the zero value and the predicate given at construction are parameters. The result is
  paired with the return statement that produced it.
\<close>

datatype return_stmt = ReturnNonZero | ReturnNotInvolved | ReturnZero | ReturnKill

definition computeTargets_at ::
  "('v \<Rightarrow> bool) \<Rightarrow> ('cb \<Rightarrow> 'v \<Rightarrow> bool) \<Rightarrow> 'cb \<Rightarrow> 'v \<Rightarrow> return_stmt \<times> 'v set" where
  "computeTargets_at isLLVMZeroValue Predicate CB Source =
     (if \<not> isLLVMZeroValue Source then (ReturnNonZero, {Source})
      else if \<not> Predicate CB Source then (ReturnNotInvolved, {Source})
      else if isLLVMZeroValue Source then (ReturnZero, {Source})
      else (ReturnKill, {}))"

definition computeTargets :: "('v \<Rightarrow> bool) \<Rightarrow> ('cb \<Rightarrow> 'v \<Rightarrow> bool) \<Rightarrow> 'cb \<Rightarrow> 'v \<Rightarrow> 'v set" where
  "computeTargets isLLVMZeroValue Predicate CB Source =
     snd (computeTargets_at isLLVMZeroValue Predicate CB Source)"

section \<open>Invariants of the construction\<close>

text \<open>
  The vertex map and the vertices of the graph describe each other: a function is mapped
  to a vertex exactly when that vertex exists and carries the function.
\<close>

definition vertex_map_ok :: "'r builder \<Rightarrow> bool" where
  "vertex_map_ok s \<longleftrightarrow>
     (\<forall>F v. FunctionVertexMap s F = Some v \<longleftrightarrow>
        v < length (vertices (CallGraph s)) \<and> vertices (CallGraph s) ! v = F)"

text \<open>
  Every edge leaves the vertex of the function its call site belongs to, that function
  has been visited, and the edge leads to an existing vertex.
\<close>

definition edges_ok :: "'r builder \<Rightarrow> bool" where
  "edges_ok s \<longleftrightarrow>
     (\<forall>e \<in> set (edges (CallGraph s)).
        FunctionVertexMap s (fst (edgeCS e)) = Some (fst e) \<and>
        edgeTarget e < length (vertices (CallGraph s)) \<and>
        fst (edgeCS e) \<in> VisitedFunctions s)"

text \<open>Every recorded indirect call site belongs to a visited function.\<close>

definition sites_ok :: "'r builder \<Rightarrow> bool" where
  "sites_ok s \<longleftrightarrow> (\<forall>n c. map_of (IndirectCalls s) n = Some c \<longrightarrow> fst n \<in> VisitedFunctions s)"

text \<open>Every visited function has a vertex.\<close>

definition visited_ok :: "'r builder \<Rightarrow> bool" where
  "visited_ok s \<longleftrightarrow> (\<forall>F \<in> VisitedFunctions s. FunctionVertexMap s F \<noteq> None)"

definition builder_inv :: "'r builder \<Rightarrow> bool" where
  "builder_inv s \<longleftrightarrow>
     vertex_map_ok s \<and> edges_ok s \<and> sites_ok s \<and> visited_ok s \<and> distinct (edges (CallGraph s))"

text \<open>The out-edges of the vertex of the function of \<open>n\<close> that are labelled \<open>n\<close>.\<close>

definition siteEdges :: "'r builder \<Rightarrow> inst \<Rightarrow> (vertex_t \<times> vertex_t \<times> inst) list" where
  "siteEdges s n =
     (case FunctionVertexMap s (fst n) of
        None \<Rightarrow> []
      | Some v \<Rightarrow> filter (\<lambda>e. edgeCS e = n) (out_edges v (CallGraph s)))"

definition counts_ok :: "'r builder \<Rightarrow> bool" where
  "counts_ok s \<longleftrightarrow> (\<forall>n c. map_of (IndirectCalls s) n = Some c \<longrightarrow> c \<le> length (siteEdges s n))"

text \<open>From \<open>s\<close> to \<open>s'\<close> nothing is taken away from the graph, the vertex map or the visited set.\<close>

definition grows :: "'r builder \<Rightarrow> 'r builder \<Rightarrow> bool" where
  "grows s s' \<longleftrightarrow>
     FunctionVertexMap s \<subseteq>\<^sub>m FunctionVertexMap s' \<and>
     prefix (vertices (CallGraph s)) (vertices (CallGraph s')) \<and>
     prefix (edges (CallGraph s)) (edges (CallGraph s')) \<and>
     VisitedFunctions s \<subseteq> VisitedFunctions s'"

text \<open>Every site recorded in \<open>s\<close> is recorded in \<open>s'\<close> with a count that is not smaller.\<close>

definition counts_grow :: "'r builder \<Rightarrow> 'r builder \<Rightarrow> bool" where
  "counts_grow s s' \<longleftrightarrow>
     (\<forall>n c. map_of (IndirectCalls s) n = Some c \<longrightarrow>
        (\<exists>c'. map_of (IndirectCalls s') n = Some c' \<and> c \<le> c'))"

definition old_or_zero :: "'r builder \<Rightarrow> 'r builder \<Rightarrow> bool" where
  "old_or_zero s s' \<longleftrightarrow>
     (\<forall>n c. map_of (IndirectCalls s') n = Some c \<longrightarrow> c = 0 \<or> map_of (IndirectCalls s) n = Some c)"

text \<open>No edge from \<open>u\<close> with call site \<open>cs\<close> leads to one of the functions \<open>ts\<close>.\<close>

definition unconnected :: "'r builder \<Rightarrow> vertex_t \<Rightarrow> inst \<Rightarrow> func list \<Rightarrow> bool" where
  "unconnected s u cs ts \<longleftrightarrow>
     (\<forall>e \<in> set (edges (CallGraph s)).
        fst e = u \<and> edgeCS e = cs \<longrightarrow> vertices (CallGraph s) ! edgeTarget e \<notin> set ts)"

text \<open>
  The target set the resolver returns for a site in \<^verbatim>\<open>constructDynamicCall\<close>, and what is
  left of it once the targets already connected are thrown out.
\<close>

definition resolvedTargets :: "'r env \<Rightarrow> type_hierarchy \<Rightarrow> inst \<Rightarrow> 'r builder \<Rightarrow> func list" where
  "resolvedTargets E T CS s = fst (resolve E T CS (callHook (PreCall CS) (preCall (ResV E) CS) s))"

definition remainingTargets :: "'r builder \<Rightarrow> vertex_t \<Rightarrow> inst \<Rightarrow> func list \<Rightarrow> func list" where
  "remainingTargets s v CS PossibleTargets =
     filter (\<lambda>t. t \<notin> set (connectedTargets (CallGraph s) v CS)) PossibleTargets"

text \<open>
  The states of a construction that starts in \<open>s0\<close>: the start, and what the two loops of
  \<^verbatim>\<open>buildCallGraph\<close> make of such a state, by popping a function off the worklist and
  processing it, or by resolving a recorded indirect call site.
\<close>

inductive constructing :: "'r env \<Rightarrow> 'r builder \<Rightarrow> 'r builder \<Rightarrow> bool" for E s0 where
  start: "constructing E s0 s0"
| pop: "constructing E s0 s \<Longrightarrow> FunctionWL s = Some F # wl \<Longrightarrow>
          constructing E s0 (snd (processFunction E F (s\<lparr>FunctionWL := wl\<rparr>)))"
| dyn: "constructing E s0 s \<Longrightarrow> CS \<in> fst ` set (IndirectCalls s) \<Longrightarrow>
          constructDynamicCall E CS s = Inr (NewTargetsFound, s') \<Longrightarrow> constructing E s0 s'"


text \<open>
  What the resolver, in state \<open>r\<close>, answers for a site: the targets returned by the hook
  that the virtual-call test selects.
\<close>

definition siteAnswer :: "'r env \<Rightarrow> type_hierarchy \<Rightarrow> inst \<Rightarrow> 'r \<Rightarrow> func set" where
  "siteAnswer E T n r =
     set (fst ((if internalIsVirtualFunctionCall (IRDB E) n T
                then resolveVirtualCall (ResV E) else resolveFunctionPointer (ResV E)) n r))"

text \<open>
  A resolver whose answers never lose a target: whatever hook is called, the answer for
  any site afterwards contains the answer before.
\<close>

definition answersGrow :: "'r env \<Rightarrow> type_hierarchy \<Rightarrow> bool" where
  "answersGrow E T \<longleftrightarrow>
     (\<forall>n m r ts.
        siteAnswer E T n r \<subseteq> siteAnswer E T n (preCall (ResV E) m r) \<and>
        siteAnswer E T n r \<subseteq> siteAnswer E T n (postCall (ResV E) m r) \<and>
        siteAnswer E T n r \<subseteq> siteAnswer E T n (otherInst (ResV E) m r) \<and>
        siteAnswer E T n r \<subseteq> siteAnswer E T n (handlePossibleTargets (ResV E) m ts r) \<and>
        siteAnswer E T n r \<subseteq> siteAnswer E T n (snd (resolveVirtualCall (ResV E) m r)) \<and>
        siteAnswer E T n r \<subseteq> siteAnswer E T n (snd (resolveFunctionPointer (ResV E) m r)))"

definition res_grows :: "'r env \<Rightarrow> type_hierarchy \<Rightarrow> 'r builder \<Rightarrow> 'r builder \<Rightarrow> bool" where
  "res_grows E T s s' \<longleftrightarrow> (\<forall>n. siteAnswer E T n (Res s) \<subseteq> siteAnswer E T n (Res s'))"

text \<open>The functions at the far end of the edges of a site.\<close>

definition siteTargets :: "'r builder \<Rightarrow> inst \<Rightarrow> func list" where
  "siteTargets s n = map (\<lambda>e. vertices (CallGraph s) ! edgeTarget e) (siteEdges s n)"

text \<open>
  Every recorded count is the number of edges of its site, and the targets of these edges
  are among what the resolver now answers for the site.
\<close>

definition exact_ok :: "'r env \<Rightarrow> type_hierarchy \<Rightarrow> 'r builder \<Rightarrow> bool" where
  "exact_ok E T s \<longleftrightarrow>
     (\<forall>n c. map_of (IndirectCalls s) n = Some c \<longrightarrow>
        c = length (siteEdges s n) \<and> set (siteTargets s n) \<subseteq> siteAnswer E T n (Res s))"

text \<open>
  Every site recorded in \<open>s'\<close> was recorded in \<open>s\<close> with the same count, edges and targets,
  or is recorded with count 0 and has no edge.
\<close>

definition sites_kept :: "'r builder \<Rightarrow> 'r builder \<Rightarrow> bool" where
  "sites_kept s s' \<longleftrightarrow>
     (\<forall>n c. map_of (IndirectCalls s') n = Some c \<longrightarrow>
        (map_of (IndirectCalls s) n = Some c \<and> siteEdges s' n = siteEdges s n \<and>
         siteTargets s' n = siteTargets s n) \<or>
        (c = 0 \<and> siteEdges s' n = []))"

text \<open>The function of every recorded site has a vertex.\<close>

definition sites_have_vertex :: "'r builder \<Rightarrow> bool" where
  "sites_have_vertex s \<longleftrightarrow>
     (\<forall>n c. map_of (IndirectCalls s) n = Some c \<longrightarrow> FunctionVertexMap s (fst n) \<noteq> None)"


section \<open>Example inputs\<close>

text \<open>A resolver whose hooks do nothing and whose resolve hooks find no target.\<close>

definition noTargets :: "'r resolver" where
  "noTargets =
     \<lparr>preCall = (\<lambda>n r. r), postCall = (\<lambda>n r. r), otherInst = (\<lambda>n r. r),
      handlePossibleTargets = (\<lambda>n ts r. r),
      resolveVirtualCall = (\<lambda>n r. ([], r)),
      resolveFunctionPointer = (\<lambda>n r. ([], r))\<rparr>"

definition noTypes :: type_hierarchy where
  "noTypes = \<lparr>hasType = (\<lambda>t. False), hasVFTable = (\<lambda>t. False)\<rparr>"

text \<open>
  One module: \<open>main\<close> (function 0) is defined and consists of a single call through a
  function pointer; functions 1, 2 and 3 are declarations.
\<close>

definition fpProgram :: irdb where
  "fpProgram =
     \<lparr>getAllFunctions = [0, 1, 2, 3], getNumberOfModules = 1,
      isDeclaration = (\<lambda>f. f \<noteq> 0),
      getName = (\<lambda>f. if f = 0 then Some ''main'' else if f = 1 then Some ''a''
                     else if f = 2 then Some ''b'' else if f = 3 then Some ''c'' else None),
      body = (\<lambda>f. if f = 0 then [CallBase None None False] else []),
      getFunction = (\<lambda>n. if n = ''main'' then Some 0 else if n = ''a'' then Some 1
                     else if n = ''b'' then Some 2 else if n = ''c'' then Some 3 else None),
      getFunctionDefinition = (\<lambda>n. if n = ''main'' then Some 0 else None),
      getReceiverType = (\<lambda>n. None), getVFTIndex = (\<lambda>n. - 1)\<rparr>"


text \<open>A resolver factory whose product keeps, as its state, everything the factory was given.\<close>

definition recording ::
  "(CallGraphAnalysisType \<times> irdb \<times> type_hierarchy option \<times> unit option, unit) externals" where
  "recording =
     \<lparr>Resolver_create = (\<lambda>CGType D T PT. (noTargets, (CGType, D, T, PT))),
      makeTypeHierarchy = (\<lambda>D. noTypes),
      makePointsToSet = (\<lambda>D. ()),
      buildCRuntimeGlobalCtorsDtorsModel = (\<lambda>D entries. (0, D))\<rparr>"

text \<open>The builder's surroundings for \<open>fpProgram\<close>, with a type hierarchy that knows no type.\<close>

definition fpEnv :: "'r resolver \<Rightarrow> 'r env" where
  "fpEnv R = \<lparr>IRDB = fpProgram, TH = Some noTypes, ResV = R\<rparr>"

text \<open>
  A resolver that counts its calls to \<^verbatim>\<open>resolveFunctionPointer\<close> and answers \<open>{1}\<close> the
  first time, \<open>{2, 3}\<close> the second time and the empty set from then on.
\<close>

definition changing :: "nat resolver" where
  "changing =
     \<lparr>preCall = (\<lambda>n r. r), postCall = (\<lambda>n r. r), otherInst = (\<lambda>n r. r),
      handlePossibleTargets = (\<lambda>n ts r. r),
      resolveVirtualCall = (\<lambda>n r. ([], r)),
      resolveFunctionPointer =
        (\<lambda>n r. (if r = 0 then [1] else if r = 1 then [2, 3] else [], Suc r))\<rparr>"



definition changingFinal :: "nat builder" where
  "changingFinal =
     \<lparr>Res = 3, VisitedFunctions = {0},
      FunctionVertexMap = [0 \<mapsto> 0, 1 \<mapsto> 1, 2 \<mapsto> 2, 3 \<mapsto> 3], FunctionWL = [],
      IndirectCalls = [((0, 0), 2)],
      CallGraph = \<lparr>vertices = [0, 1, 2, 3],
                   edges = [(0, 1, (0, 0)), (0, 2, (0, 0)), (0, 3, (0, 0))]\<rparr>,
      HookLog = [PreCall (0, 0),
        PreCall (0, 0), ResolveFunctionPointer (0, 0), HandlePossibleTargets (0, 0) [1], PostCall (0, 0),
        PreCall (0, 0), ResolveFunctionPointer (0, 0), HandlePossibleTargets (0, 0) [2, 3], PostCall (0, 0),
        PreCall (0, 0), ResolveFunctionPointer (0, 0)]\<rparr>"

text \<open>A resolver that answers \<open>{1, 2}\<close> for every call through a function pointer.\<close>

definition steady :: "unit resolver" where
  "steady =
     \<lparr>preCall = (\<lambda>n r. r), postCall = (\<lambda>n r. r), otherInst = (\<lambda>n r. r),
      handlePossibleTargets = (\<lambda>n ts r. r),
      resolveVirtualCall = (\<lambda>n r. ([], r)),
      resolveFunctionPointer = (\<lambda>n r. ([1, 2], r))\<rparr>"

definition steadyFinal :: "unit builder" where
  "steadyFinal =
     \<lparr>Res = (), VisitedFunctions = {0},
      FunctionVertexMap = [0 \<mapsto> 0, 1 \<mapsto> 1, 2 \<mapsto> 2], FunctionWL = [],
      IndirectCalls = [((0, 0), 2)],
      CallGraph = \<lparr>vertices = [0, 1, 2], edges = [(0, 1, (0, 0)), (0, 2, (0, 0))]\<rparr>,
      HookLog = [PreCall (0, 0),
        PreCall (0, 0), ResolveFunctionPointer (0, 0), HandlePossibleTargets (0, 0) [1, 2], PostCall (0, 0),
        PreCall (0, 0), ResolveFunctionPointer (0, 0)]\<rparr>"


section \<open>Lemmas about the builder\<close>

subsection \<open>Vertices, edges and the worklist under the target loop\<close>

lemma callHook_fields [simp]:
  "VisitedFunctions (callHook h f s) = VisitedFunctions s"
  "FunctionVertexMap (callHook h f s) = FunctionVertexMap s"
  "FunctionWL (callHook h f s) = FunctionWL s"
  "IndirectCalls (callHook h f s) = IndirectCalls s"
  "CallGraph (callHook h f s) = CallGraph s"
  "HookLog (callHook h f s) = HookLog s @ [h]"
  "Res (callHook h f s) = f (Res s)"
  by (simp_all add: callHook_def)

lemma vertexFor_fields [simp]:
  "VisitedFunctions (snd (vertexFor F s)) = VisitedFunctions s"
  "FunctionWL (snd (vertexFor F s)) = FunctionWL s"
  "IndirectCalls (snd (vertexFor F s)) = IndirectCalls s"
  "HookLog (snd (vertexFor F s)) = HookLog s"
  "Res (snd (vertexFor F s)) = Res s"
  "edges (CallGraph (snd (vertexFor F s))) = edges (CallGraph s)"
  by (simp_all add: vertexFor_def add_vertex_def split: option.splits)

lemma vertexFor_map:
  "FunctionVertexMap (snd (vertexFor F s)) =
     (case FunctionVertexMap s F of
        Some v \<Rightarrow> FunctionVertexMap s
      | None \<Rightarrow> (FunctionVertexMap s)(F \<mapsto> length (vertices (CallGraph s))))"
  by (simp add: vertexFor_def add_vertex_def split: option.splits)

lemma vertexFor_vertices:
  "vertices (CallGraph (snd (vertexFor F s))) =
     (case FunctionVertexMap s F of
        Some v \<Rightarrow> vertices (CallGraph s)
      | None \<Rightarrow> vertices (CallGraph s) @ [F])"
  by (simp add: vertexFor_def add_vertex_def split: option.splits)

lemma vertexFor_fst:
  "fst (vertexFor F s) =
     (case FunctionVertexMap s F of Some v \<Rightarrow> v | None \<Rightarrow> length (vertices (CallGraph s)))"
  by (simp add: vertexFor_def add_vertex_def split: option.splits)

lemma vertexFor_has:
  "FunctionVertexMap (snd (vertexFor F s)) F = Some (fst (vertexFor F s))"
  by (simp add: vertexFor_map vertexFor_fst split: option.splits)

lemma vertexFor_map_le: "FunctionVertexMap s \<subseteq>\<^sub>m FunctionVertexMap (snd (vertexFor F s))"
  by (auto simp: vertexFor_map map_le_def split: option.splits)

lemma vertexFor_vertex_map_ok:
  assumes "vertex_map_ok s" shows "vertex_map_ok (snd (vertexFor F s))"
proof (cases "FunctionVertexMap s F")
  case None
  have nin: "\<And>v. v < length (vertices (CallGraph s)) \<Longrightarrow> vertices (CallGraph s) ! v \<noteq> F"
    using assms None unfolding vertex_map_ok_def by (metis option.distinct(1))
  show ?thesis
    using assms nin unfolding vertex_map_ok_def
    by (auto simp: vertexFor_map vertexFor_vertices None nth_append less_Suc_eq)
next
  case (Some v)
  then have "snd (vertexFor F s) = s" by (simp add: vertexFor_def)
  then show ?thesis using assms by simp
qed

lemma grows_refl [simp]: "grows s s"
  by (simp add: grows_def)

lemma grows_trans: "grows s s' \<Longrightarrow> grows s' s'' \<Longrightarrow> grows s s''"
  unfolding grows_def by (meson map_le_trans prefix_order.order_trans subset_trans)

lemma counts_grow_refl [simp]: "counts_grow s s"
  by (simp add: counts_grow_def)


lemma grows_callHook [simp]: "grows s (callHook h f s)"
  by (simp add: grows_def)

lemma grows_vertexFor: "grows s (snd (vertexFor F s))"
  by (auto simp: grows_def vertexFor_map_le vertexFor_vertices split: option.splits)

lemma insertTarget_fields [simp]:
  "VisitedFunctions (insertTarget u cs t s) = VisitedFunctions s"
  "IndirectCalls (insertTarget u cs t s) = IndirectCalls s"
  "HookLog (insertTarget u cs t s) = HookLog s"
  "Res (insertTarget u cs t s) = Res s"
  "FunctionWL (insertTarget u cs t s) = Some t # FunctionWL s"
  "FunctionVertexMap (insertTarget u cs t s) = FunctionVertexMap (snd (vertexFor t s))"
  "vertices (CallGraph (insertTarget u cs t s)) = vertices (CallGraph (snd (vertexFor t s)))"
  "edges (CallGraph (insertTarget u cs t s)) = edges (CallGraph s) @ [(u, fst (vertexFor t s), cs)]"
  by (simp_all add: insertTarget_def add_edge_def case_prod_beta)

lemma grows_insertTarget: "grows s (insertTarget u cs t s)"
  using grows_vertexFor [of s t] by (simp add: grows_def)

lemma insertTargets_Nil [simp]: "insertTargets u cs [] s = s"
  by (simp add: insertTargets_def)

lemma insertTargets_Cons [simp]:
  "insertTargets u cs (t # ts) s = insertTargets u cs ts (insertTarget u cs t s)"
  by (simp add: insertTargets_def)

lemma insertTargets_fields [simp]:
  "VisitedFunctions (insertTargets u cs ts s) = VisitedFunctions s"
  "IndirectCalls (insertTargets u cs ts s) = IndirectCalls s"
  "HookLog (insertTargets u cs ts s) = HookLog s"
  "Res (insertTargets u cs ts s) = Res s"
  by (induction ts arbitrary: s; simp)+

lemma insertTargets_WL:
  "FunctionWL (insertTargets u cs ts s) = rev (map Some ts) @ FunctionWL s"
  by (induction ts arbitrary: s) simp_all

lemma grows_insertTargets: "grows s (insertTargets u cs ts s)"
proof (induction ts arbitrary: s)
  case Nil
  show ?case by simp
next
  case (Cons t ts)
  show ?case using grows_trans [OF grows_insertTarget Cons] by simp
qed

lemma insertTarget_has: "FunctionVertexMap (insertTarget u cs t s) t = Some (fst (vertexFor t s))"
  by (simp add: vertexFor_has)

lemma insertTargets_edges:
  "edges (CallGraph (insertTargets u cs ts s)) =
     edges (CallGraph s) @ map (\<lambda>t. (u, the (FunctionVertexMap (insertTargets u cs ts s) t), cs)) ts"
proof (induction ts arbitrary: s)
  case Nil
  show ?case by simp
next
  case (Cons t ts)
  let ?s1 = "insertTarget u cs t s"
  have "FunctionVertexMap ?s1 \<subseteq>\<^sub>m FunctionVertexMap (insertTargets u cs ts ?s1)"
    using grows_insertTargets [of ?s1 u cs ts] by (simp add: grows_def)
  then have "FunctionVertexMap (insertTargets u cs ts ?s1) t = Some (fst (vertexFor t s))"
    using insertTarget_has [of u cs t s] by (metis domI map_le_def)
  then show ?case using Cons [of ?s1] by simp
qed

lemma insertTargets_dom:
  "t \<in> set ts \<Longrightarrow> FunctionVertexMap (insertTargets u cs ts s) t \<noteq> None"
proof (induction ts arbitrary: s)
  case Nil
  then show ?case by simp
next
  case (Cons a ts)
  let ?s1 = "insertTarget u cs a s"
  have le: "FunctionVertexMap ?s1 \<subseteq>\<^sub>m FunctionVertexMap (insertTargets u cs ts ?s1)"
    using grows_insertTargets [of ?s1 u cs ts] by (simp add: grows_def)
  show ?case
  proof (cases "t = a")
    case True
    then show ?thesis using le insertTarget_has [of u cs a s] by (metis domI map_le_def insertTargets_Cons option.distinct(1))
  next
    case False
    then show ?thesis using Cons by simp
  qed
qed

lemma vertex_map_ok_insertTarget:
  "vertex_map_ok s \<Longrightarrow> vertex_map_ok (insertTarget u cs t s)"
  using vertexFor_vertex_map_ok [of s t] by (simp add: vertex_map_ok_def)

lemma vertex_map_ok_insertTargets:
  "vertex_map_ok s \<Longrightarrow> vertex_map_ok (insertTargets u cs ts s)"
  by (induction ts arbitrary: s) (simp_all add: vertex_map_ok_insertTarget)

lemma vertex_map_ok_callHook [simp]: "vertex_map_ok (callHook h f s) = vertex_map_ok s"
  by (simp add: vertex_map_ok_def)

lemma prefix_nth: "prefix xs ys \<Longrightarrow> i < length xs \<Longrightarrow> ys ! i = xs ! i"
  by (auto simp: prefix_def nth_append)

lemma vertexFor_fst_less:
  "vertex_map_ok s \<Longrightarrow> fst (vertexFor t s) < length (vertices (CallGraph (snd (vertexFor t s))))"
  using vertexFor_vertex_map_ok [of s t] vertexFor_has [of t s]
  unfolding vertex_map_ok_def by blast

lemma vertexFor_fst_nth:
  "vertex_map_ok s \<Longrightarrow> vertices (CallGraph (snd (vertexFor t s))) ! fst (vertexFor t s) = t"
  using vertexFor_vertex_map_ok [of s t] vertexFor_has [of t s]
  unfolding vertex_map_ok_def by blast

lemma edges_ok_insertTarget:
  assumes "vertex_map_ok s" "edges_ok s"
    and "FunctionVertexMap s (fst cs) = Some u" "fst cs \<in> VisitedFunctions s"
  shows "edges_ok (insertTarget u cs t s)"
proof -
  let ?s1 = "snd (vertexFor t s)"
  have le: "FunctionVertexMap s \<subseteq>\<^sub>m FunctionVertexMap ?s1"
    by (rule vertexFor_map_le)
  have len: "length (vertices (CallGraph s)) \<le> length (vertices (CallGraph ?s1))"
    by (simp add: vertexFor_vertices split: option.splits)
  have keep: "\<And>F v. FunctionVertexMap s F = Some v \<Longrightarrow> FunctionVertexMap ?s1 F = Some v"
    using le by (metis domI map_le_def)
  have old: "\<And>e. e \<in> set (edges (CallGraph s)) \<Longrightarrow>
      FunctionVertexMap ?s1 (fst (edgeCS e)) = Some (fst e) \<and>
      edgeTarget e < length (vertices (CallGraph ?s1)) \<and> fst (edgeCS e) \<in> VisitedFunctions s"
    using assms(2) keep len unfolding edges_ok_def by fastforce
  have new: "FunctionVertexMap ?s1 (fst cs) = Some u \<and>
      fst (vertexFor t s) < length (vertices (CallGraph ?s1)) \<and> fst cs \<in> VisitedFunctions s"
    using keep [OF assms(3)] vertexFor_fst_less [OF assms(1)] assms(4) by simp
  show ?thesis
    unfolding edges_ok_def using old new by (auto simp: edgeCS_def edgeTarget_def)
qed

lemma vertexFor_keeps_vertex:
  "FunctionVertexMap s F = Some v \<Longrightarrow> FunctionVertexMap (snd (vertexFor t s)) F = Some v"
  using vertexFor_map_le [of s t] by (metis domI map_le_def)

lemma edges_ok_insertTargets:
  assumes "vertex_map_ok s" "edges_ok s"
    and "FunctionVertexMap s (fst cs) = Some u" "fst cs \<in> VisitedFunctions s"
  shows "edges_ok (insertTargets u cs ts s)"
  using assms
proof (induction ts arbitrary: s)
  case Nil
  then show ?case by simp
next
  case (Cons t ts)
  show ?case
    using Cons.IH [of "insertTarget u cs t s"] Cons.prems
    by (simp add: vertex_map_ok_insertTarget edges_ok_insertTarget vertexFor_keeps_vertex)
qed

lemma distinct_insertTarget:
  assumes vm: "vertex_map_ok s" and eo: "edges_ok s" and d: "distinct (edges (CallGraph s))"
    and un: "unconnected s u cs (t # ts)" and dt: "distinct (t # ts)"
  shows "distinct (edges (CallGraph (insertTarget u cs t s))) \<and> unconnected (insertTarget u cs t s) u cs ts"
proof -
  let ?s1 = "snd (vertexFor t s)"
  let ?tv = "fst (vertexFor t s)"
  have pre: "prefix (vertices (CallGraph s)) (vertices (CallGraph ?s1))"
    using grows_vertexFor [of s t] by (simp add: grows_def)
  have tgt: "\<And>e. e \<in> set (edges (CallGraph s)) \<Longrightarrow>
      vertices (CallGraph ?s1) ! edgeTarget e = vertices (CallGraph s) ! edgeTarget e"
    using eo pre unfolding edges_ok_def by (simp add: prefix_nth)
  have nth: "vertices (CallGraph ?s1) ! ?tv = t"
    by (rule vertexFor_fst_nth [OF vm])
  have fresh: "(u, ?tv, cs) \<notin> set (edges (CallGraph s))"
  proof
    assume mem: "(u, ?tv, cs) \<in> set (edges (CallGraph s))"
    have "vertices (CallGraph s) ! ?tv = t"
      using tgt [OF mem] nth by (simp add: edgeTarget_def)
    moreover have "vertices (CallGraph s) ! ?tv \<notin> set (t # ts)"
      using un mem unfolding unconnected_def by (force simp: edgeTarget_def edgeCS_def)
    ultimately show False by simp
  qed
  have un_old: "\<And>e. e \<in> set (edges (CallGraph s)) \<Longrightarrow> fst e = u \<Longrightarrow> edgeCS e = cs \<Longrightarrow>
      vertices (CallGraph ?s1) ! edgeTarget e \<notin> set ts"
    using un tgt unfolding unconnected_def by simp
  have un_new: "vertices (CallGraph ?s1) ! ?tv \<notin> set ts"
    using nth dt by simp
  show ?thesis
    using d fresh un_old un_new unfolding unconnected_def
    by (auto simp: edgeTarget_def edgeCS_def)
qed

lemma distinct_insertTargets:
  assumes "vertex_map_ok s" "edges_ok s" "distinct (edges (CallGraph s))"
    and "FunctionVertexMap s (fst cs) = Some u" "fst cs \<in> VisitedFunctions s"
    and "unconnected s u cs ts" "distinct ts"
  shows "distinct (edges (CallGraph (insertTargets u cs ts s)))"
  using assms
proof (induction ts arbitrary: s)
  case Nil
  then show ?case by simp
next
  case (Cons t ts)
  have step: "distinct (edges (CallGraph (insertTarget u cs t s))) \<and>
      unconnected (insertTarget u cs t s) u cs ts"
    using distinct_insertTarget [of s u cs t ts] Cons.prems by simp
  show ?case
    using Cons.IH [of "insertTarget u cs t s"] Cons.prems step
    by (simp add: vertex_map_ok_insertTarget edges_ok_insertTarget vertexFor_keeps_vertex)
qed

subsection \<open>One instruction\<close>

lemma processInst_cases:
  obtains
    (other) "instrAt (IRDB E) I = OtherInst"
      "processInst E v I x = (fst x, callHook (OtherInstHook I) (otherInst (ResV E) I) (snd x))"
  | (static) cf nm asm t where "instrAt (IRDB E) I = CallBase cf nm asm"
      "staticCallee (IRDB E) cf nm = Some t"
      "processInst E v I x =
         (fst x, callHook (PostCall I) (postCall (ResV E) I)
            (insertTargets v I [t]
               (callHook (HandlePossibleTargets I [t]) (handlePossibleTargets (ResV E) I [t])
                  (callHook (PreCall I) (preCall (ResV E) I) (snd x)))))"
  | (inlineAsm) cf nm where "instrAt (IRDB E) I = CallBase cf nm True"
      "staticCallee (IRDB E) cf nm = None"
      "processInst E v I x = (fst x, callHook (PreCall I) (preCall (ResV E) I) (snd x))"
  | (indirect) cf nm where "instrAt (IRDB E) I = CallBase cf nm False"
      "staticCallee (IRDB E) cf nm = None"
      "processInst E v I x =
         (False, (callHook (PreCall I) (preCall (ResV E) I) (snd x))
            \<lparr>IndirectCalls := AList.update I 0 (IndirectCalls (snd x))\<rparr>)"
proof (cases "instrAt (IRDB E) I")
  case OtherInst
  then show ?thesis using other by (simp add: processInst_def)
next
  case (CallBase cf nm asm)
  show ?thesis
  proof (cases "staticCallee (IRDB E) cf nm")
    case (Some t)
    then show ?thesis using static [of cf nm asm t] CallBase by (simp add: processInst_def Let_def)
  next
    case None
    then show ?thesis
      using inlineAsm [of cf nm] indirect [of cf nm] CallBase
      by (cases asm) (simp_all add: processInst_def Let_def)
  qed
qed

lemma processInst_visited [simp]:
  "VisitedFunctions (snd (processInst E v I x)) = VisitedFunctions (snd x)"
  by (cases rule: processInst_cases [of E I v x]) simp_all

lemma grows_update_IC [simp]: "grows s (s'\<lparr>IndirectCalls := ic\<rparr>) = grows s s'"
  by (simp add: grows_def)

lemma grows_processInst: "grows (snd x) (snd (processInst E v I x))"
proof (cases rule: processInst_cases [of E I v x])
  case (static cf nm asm t)
  have "grows (snd x) (insertTargets v I [t]
               (callHook (HandlePossibleTargets I [t]) (handlePossibleTargets (ResV E) I [t])
                  (callHook (PreCall I) (preCall (ResV E) I) (snd x))))"
    by (rule grows_trans [OF _ grows_insertTargets]) (simp add: grows_def)
  then show ?thesis using static by (simp add: grows_def)
qed (simp_all add: grows_def)

lemma vertex_map_ok_update_IC [simp]: "vertex_map_ok (s\<lparr>IndirectCalls := ic\<rparr>) = vertex_map_ok s"
  by (simp add: vertex_map_ok_def)

lemma vertex_map_ok_processInst:
  "vertex_map_ok (snd x) \<Longrightarrow> vertex_map_ok (snd (processInst E v I x))"
  by (cases rule: processInst_cases [of E I v x])
     (simp_all add: vertex_map_ok_insertTargets del: insertTargets_Cons)

lemma edges_ok_callHook [simp]: "edges_ok (callHook h f s) = edges_ok s"
  by (simp add: edges_ok_def)

lemma edges_ok_update_IC [simp]: "edges_ok (s\<lparr>IndirectCalls := ic\<rparr>) = edges_ok s"
  by (simp add: edges_ok_def)

lemma edges_ok_processInst:
  assumes "vertex_map_ok (snd x)" "edges_ok (snd x)"
    and "FunctionVertexMap (snd x) (fst I) = Some v" "fst I \<in> VisitedFunctions (snd x)"
  shows "edges_ok (snd (processInst E v I x))"
proof (cases rule: processInst_cases [of E I v x])
  case (static cf nm asm t)
  have "edges_ok (insertTargets v I [t]
               (callHook (HandlePossibleTargets I [t]) (handlePossibleTargets (ResV E) I [t])
                  (callHook (PreCall I) (preCall (ResV E) I) (snd x))))"
    by (rule edges_ok_insertTargets) (use assms in simp_all)
  then show ?thesis using static by simp
qed (use assms in simp_all)

lemma processInst_labels:
  assumes "e \<in> set (edges (CallGraph (snd (processInst E v I x))))"
  shows "e \<in> set (edges (CallGraph (snd x))) \<or> edgeCS e = I"
  using assms
  by (cases rule: processInst_cases [of E I v x]) (auto simp: edgeCS_def)

lemma distinct_processInst:
  assumes "vertex_map_ok (snd x)" "edges_ok (snd x)" "distinct (edges (CallGraph (snd x)))"
    and "FunctionVertexMap (snd x) (fst I) = Some v" "fst I \<in> VisitedFunctions (snd x)"
    and "\<forall>e \<in> set (edges (CallGraph (snd x))). edgeCS e \<noteq> I"
  shows "distinct (edges (CallGraph (snd (processInst E v I x))))"
proof (cases rule: processInst_cases [of E I v x])
  case (static cf nm asm t)
  have "distinct (edges (CallGraph (insertTargets v I [t]
               (callHook (HandlePossibleTargets I [t]) (handlePossibleTargets (ResV E) I [t])
                  (callHook (PreCall I) (preCall (ResV E) I) (snd x))))))"
    by (rule distinct_insertTargets) (use assms in \<open>simp_all add: unconnected_def\<close>)
  then show ?thesis using static by simp
qed (use assms in simp_all)

lemma processInst_IC_other:
  "J \<noteq> I \<Longrightarrow> map_of (IndirectCalls (snd (processInst E v I x))) J = map_of (IndirectCalls (snd x)) J"
  by (cases rule: processInst_cases [of E I v x]) (simp_all add: update_conv')

lemma processInst_IC_self:
  "map_of (IndirectCalls (snd (processInst E v I x))) I = Some c \<Longrightarrow>
     map_of (IndirectCalls (snd x)) I = Some c \<or> c = 0"
  by (cases rule: processInst_cases [of E I v x]) (simp_all add: update_conv')


lemma sites_ok_processInst:
  assumes "sites_ok (snd x)" "fst I \<in> VisitedFunctions (snd x)"
  shows "sites_ok (snd (processInst E v I x))"
  unfolding sites_ok_def
proof (intro allI impI)
  fix n c
  assume "map_of (IndirectCalls (snd (processInst E v I x))) n = Some c"
  then have "n = I \<or> map_of (IndirectCalls (snd x)) n = Some c"
    using processInst_IC_other [of n I E v x] by (cases "n = I") simp_all
  then show "fst n \<in> VisitedFunctions (snd (processInst E v I x))"
    using assms unfolding sites_ok_def by (cases n) fastforce
qed

subsection \<open>The scan of a function\<close>

lemma grows_keeps_vertex:
  "grows s s' \<Longrightarrow> FunctionVertexMap s F = Some v \<Longrightarrow> FunctionVertexMap s' F = Some v"
  unfolding grows_def by (metis domI map_le_def)

lemma grows_scan: "grows (snd x) (snd (fold (processInst E v) Is x))"
proof (induction Is arbitrary: x)
  case Nil
  show ?case by simp
next
  case (Cons I Is)
  show ?case
    using grows_trans [OF grows_processInst [of x E v I] Cons [of "processInst E v I x"]] by simp
qed

lemma scan_visited [simp]:
  "VisitedFunctions (snd (fold (processInst E v) Is x)) = VisitedFunctions (snd x)"
  by (induction Is arbitrary: x) simp_all

lemma scan_inv:
  assumes "vertex_map_ok (snd x)" "edges_ok (snd x)" "sites_ok (snd x)"
    and "distinct (edges (CallGraph (snd x)))"
    and "FunctionVertexMap (snd x) F = Some v" "F \<in> VisitedFunctions (snd x)"
    and "distinct Is" "\<forall>I \<in> set Is. fst I = F"
    and "\<forall>e \<in> set (edges (CallGraph (snd x))). edgeCS e \<notin> set Is"
  shows "vertex_map_ok (snd (fold (processInst E v) Is x)) \<and>
         edges_ok (snd (fold (processInst E v) Is x)) \<and>
         sites_ok (snd (fold (processInst E v) Is x)) \<and>
         distinct (edges (CallGraph (snd (fold (processInst E v) Is x))))"
  using assms
proof (induction Is arbitrary: x)
  case Nil
  then show ?case by simp
next
  case (Cons I Is)
  let ?x1 = "processInst E v I x"
  have fI: "fst I = F" using Cons.prems(8) by simp
  have 1: "vertex_map_ok (snd ?x1)"
    using Cons.prems(1) by (rule vertex_map_ok_processInst)
  have 2: "edges_ok (snd ?x1)"
    using Cons.prems(1,2,5,6) fI by (intro edges_ok_processInst) simp_all
  have 3: "sites_ok (snd ?x1)"
    using Cons.prems(3,6) fI by (intro sites_ok_processInst) simp_all
  have 4: "distinct (edges (CallGraph (snd ?x1)))"
    using Cons.prems(1,2,4,5,6,9) fI by (intro distinct_processInst) simp_all
  have 5: "FunctionVertexMap (snd ?x1) F = Some v"
    using grows_keeps_vertex [OF grows_processInst Cons.prems(5)] .
  have 6: "F \<in> VisitedFunctions (snd ?x1)"
    using Cons.prems(6) by simp
  have 9: "\<forall>e \<in> set (edges (CallGraph (snd ?x1))). edgeCS e \<notin> set Is"
  proof
    fix e assume "e \<in> set (edges (CallGraph (snd ?x1)))"
    then have "e \<in> set (edges (CallGraph (snd x))) \<or> edgeCS e = I"
      by (rule processInst_labels)
    moreover have "I \<notin> set Is" using Cons.prems(7) by simp
    ultimately show "edgeCS e \<notin> set Is"
      using Cons.prems(9) by (metis list.set_intros(2))
  qed
  show ?case
    using Cons.IH [of ?x1, OF 1 2 3 4 5 6 _ _ 9] Cons.prems(7,8) by simp
qed


lemma instructions_distinct: "distinct (instructions D F)"
  by (simp add: instructions_def distinct_map inj_on_def)

lemma instructions_fst: "I \<in> set (instructions D F) \<Longrightarrow> fst I = F"
  by (auto simp: instructions_def)

lemma vertex_map_ok_update_V [simp]: "vertex_map_ok (s\<lparr>VisitedFunctions := X\<rparr>) = vertex_map_ok s"
  by (simp add: vertex_map_ok_def)

lemma processFunction_cases:
  obtains
    (skip) "isDeclaration (IRDB E) F \<or> F \<in> VisitedFunctions s" "processFunction E F s = (True, s)"
  | (scan) "\<not> isDeclaration (IRDB E) F" "F \<notin> VisitedFunctions s"
      "processFunction E F s =
         fold (processInst E (fst (vertexFor F (s\<lparr>VisitedFunctions := insert F (VisitedFunctions s)\<rparr>))))
           (instructions (IRDB E) F)
           (True, snd (vertexFor F (s\<lparr>VisitedFunctions := insert F (VisitedFunctions s)\<rparr>)))"
  by (cases "isDeclaration (IRDB E) F \<or> F \<in> VisitedFunctions s")
     (auto simp: processFunction_def case_prod_beta)

lemma grows_processFunction: "grows s (snd (processFunction E F s))"
proof (cases rule: processFunction_cases [of E F s])
  case skip
  then show ?thesis by simp
next
  case scan
  let ?s0 = "s\<lparr>VisitedFunctions := insert F (VisitedFunctions s)\<rparr>"
  have "grows s ?s0" by (auto simp: grows_def)
  then have "grows s (snd (vertexFor F ?s0))"
    using grows_trans grows_vertexFor by blast
  then show ?thesis
    unfolding scan(3)
    using grows_trans [OF _ grows_scan [of "(True, snd (vertexFor F ?s0))", simplified]] by simp
qed

lemma processFunction_inv:
  assumes "vertex_map_ok s" "edges_ok s" "sites_ok s" "visited_ok s" "distinct (edges (CallGraph s))"
  shows "vertex_map_ok (snd (processFunction E F s)) \<and> edges_ok (snd (processFunction E F s)) \<and>
         sites_ok (snd (processFunction E F s)) \<and> visited_ok (snd (processFunction E F s)) \<and>
         distinct (edges (CallGraph (snd (processFunction E F s))))"
proof (cases rule: processFunction_cases [of E F s])
  case skip
  then show ?thesis using assms by simp
next
  case scan
  let ?s0 = "s\<lparr>VisitedFunctions := insert F (VisitedFunctions s)\<rparr>"
  let ?s1 = "snd (vertexFor F ?s0)"
  let ?v = "fst (vertexFor F ?s0)"
  let ?x = "(True, ?s1)"
  let ?r = "fold (processInst E ?v) (instructions (IRDB E) F) ?x"
  have 1: "vertex_map_ok ?s1"
    using assms(1) by (intro vertexFor_vertex_map_ok) simp
  have g: "grows s ?s1"
    using grows_trans [of s ?s0 ?s1] grows_vertexFor [of ?s0 F] by (auto simp: grows_def)
  have 2: "edges_ok ?s1"
    unfolding edges_ok_def
  proof
    fix e assume e: "e \<in> set (edges (CallGraph ?s1))"
    then have e0: "e \<in> set (edges (CallGraph s))" by simp
    have "length (vertices (CallGraph s)) \<le> length (vertices (CallGraph ?s1))"
      using g by (simp add: grows_def prefix_length_le)
    then show "FunctionVertexMap ?s1 (fst (edgeCS e)) = Some (fst e) \<and>
        edgeTarget e < length (vertices (CallGraph ?s1)) \<and> fst (edgeCS e) \<in> VisitedFunctions ?s1"
      using assms(2) e0 grows_keeps_vertex [OF g] unfolding edges_ok_def by fastforce
  qed
  have 3: "sites_ok ?s1"
    using assms(3) by (auto simp: sites_ok_def)
  have 4: "distinct (edges (CallGraph ?s1))"
    using assms(5) by simp
  have 5: "FunctionVertexMap ?s1 F = Some ?v"
    by (rule vertexFor_has)
  have 6: "F \<in> VisitedFunctions ?s1" by simp
  have 9: "\<forall>e \<in> set (edges (CallGraph ?s1)). edgeCS e \<notin> set (instructions (IRDB E) F)"
    using assms(2) scan(2) instructions_fst unfolding edges_ok_def by fastforce
  have inv: "vertex_map_ok (snd ?r) \<and> edges_ok (snd ?r) \<and> sites_ok (snd ?r) \<and>
      distinct (edges (CallGraph (snd ?r)))"
    using scan_inv [of ?x F ?v "instructions (IRDB E) F" E] 1 2 3 4 5 6 9
      instructions_distinct instructions_fst by simp
  have gr: "grows s (snd ?r)"
    using grows_trans [OF g grows_scan [of ?x E ?v "instructions (IRDB E) F", simplified]] by simp
  have "visited_ok (snd ?r)"
    unfolding visited_ok_def
  proof
    fix G assume "G \<in> VisitedFunctions (snd ?r)"
    then have "G = F \<or> G \<in> VisitedFunctions s" by simp
    then show "FunctionVertexMap (snd ?r) G \<noteq> None"
    proof
      assume "G = F"
      then show ?thesis
        using grows_keeps_vertex [OF grows_scan [of ?x E ?v "instructions (IRDB E) F"], of F ?v] 5
        by simp
    next
      assume "G \<in> VisitedFunctions s"
      then obtain w where "FunctionVertexMap s G = Some w"
        using assms(4) unfolding visited_ok_def by blast
      then show ?thesis using grows_keeps_vertex [OF gr] by simp
    qed
  qed
  then show ?thesis using inv unfolding scan(3) by simp
qed


subsection \<open>Resolving an indirect call site\<close>

lemma resolve_fields [simp]:
  "VisitedFunctions (snd (resolve E T CS s)) = VisitedFunctions s"
  "FunctionVertexMap (snd (resolve E T CS s)) = FunctionVertexMap s"
  "FunctionWL (snd (resolve E T CS s)) = FunctionWL s"
  "IndirectCalls (snd (resolve E T CS s)) = IndirectCalls s"
  "CallGraph (snd (resolve E T CS s)) = CallGraph s"
  by (simp_all add: resolve_def case_prod_beta)

lemma resolve_distinct [simp]: "distinct (fst (resolve E T CS s))"
  by (simp add: resolve_def case_prod_beta)

lemma constructDynamicCall_cases:
  assumes "constructDynamicCall E CS s = Inr (b, s')"
  obtains
    (notCall) v where "FunctionVertexMap s (fst CS) = Some v" "\<not> isCallBase (IRDB E) CS"
      "b = False" "s' = callHook (OtherInstHook CS) (otherInst (ResV E) CS) s"
  | (noNew) v T c where "FunctionVertexMap s (fst CS) = Some v" "isCallBase (IRDB E) CS"
      "TH E = Some T" "map_of (IndirectCalls s) CS = Some c"
      "\<not> c < length (fst (resolve E T CS (callHook (PreCall CS) (preCall (ResV E) CS) s)))"
      "b = False" "s' = snd (resolve E T CS (callHook (PreCall CS) (preCall (ResV E) CS) s))"
  | (new) v T c where "FunctionVertexMap s (fst CS) = Some v" "isCallBase (IRDB E) CS"
      "TH E = Some T" "map_of (IndirectCalls s) CS = Some c"
      "c < length (fst (resolve E T CS (callHook (PreCall CS) (preCall (ResV E) CS) s)))"
      "b = True"
      "s' = callHook (PostCall CS) (postCall (ResV E) CS)
              (insertTargets v CS
                 (remainingTargets s v CS (fst (resolve E T CS (callHook (PreCall CS) (preCall (ResV E) CS) s))))
                 (callHook
                    (HandlePossibleTargets CS
                       (remainingTargets s v CS (fst (resolve E T CS (callHook (PreCall CS) (preCall (ResV E) CS) s)))))
                    (handlePossibleTargets (ResV E) CS
                       (remainingTargets s v CS (fst (resolve E T CS (callHook (PreCall CS) (preCall (ResV E) CS) s)))))
                    ((snd (resolve E T CS (callHook (PreCall CS) (preCall (ResV E) CS) s)))
                       \<lparr>IndirectCalls :=
                          AList.update CS
                            (length (fst (resolve E T CS (callHook (PreCall CS) (preCall (ResV E) CS) s))))
                            (IndirectCalls s)\<rparr>)))"
  using assms
  by (auto simp: constructDynamicCall_def Let_def case_prod_beta remainingTargets_def
           split: option.splits if_splits)

lemma vertex_map_ok_eqI:
  "FunctionVertexMap s' = FunctionVertexMap s \<Longrightarrow> CallGraph s' = CallGraph s \<Longrightarrow>
     vertex_map_ok s' = vertex_map_ok s"
  by (simp add: vertex_map_ok_def)

lemma edges_ok_eqI:
  "FunctionVertexMap s' = FunctionVertexMap s \<Longrightarrow> CallGraph s' = CallGraph s \<Longrightarrow>
   VisitedFunctions s' = VisitedFunctions s \<Longrightarrow> edges_ok s' = edges_ok s"
  by (simp add: edges_ok_def)

lemma unconnected_eqI:
  "CallGraph s' = CallGraph s \<Longrightarrow> unconnected s' u cs ts = unconnected s u cs ts"
  by (simp add: unconnected_def)

lemma unconnected_remaining: "unconnected s v CS (remainingTargets s v CS PT)"
  by (auto simp: unconnected_def remainingTargets_def connectedTargets_def out_edges_def)

lemma grows_eqI:
  "FunctionVertexMap s' = FunctionVertexMap s \<Longrightarrow> CallGraph s' = CallGraph s \<Longrightarrow>
   VisitedFunctions s' = VisitedFunctions s \<Longrightarrow> grows s s'"
  by (simp add: grows_def)

lemma constructDynamicCall_grows:
  assumes "constructDynamicCall E CS s = Inr (b, s')"
  shows "grows s s'"
  using assms
proof (cases rule: constructDynamicCall_cases)
  case (notCall v)
  then show ?thesis by simp
next
  case (noNew v T c)
  then show ?thesis by (simp add: grows_eqI)
next
  case (new v T c)
  define s1 where "s1 = callHook (PreCall CS) (preCall (ResV E) CS) s"
  define PT where "PT = fst (resolve E T CS s1)"
  define Rm where "Rm = remainingTargets s v CS PT"
  define s4 where "s4 = callHook (HandlePossibleTargets CS Rm) (handlePossibleTargets (ResV E) CS Rm)
                    ((snd (resolve E T CS s1))\<lparr>IndirectCalls := AList.update CS (length PT) (IndirectCalls s)\<rparr>)"
  have s': "s' = callHook (PostCall CS) (postCall (ResV E) CS) (insertTargets v CS Rm s4)"
    using new(7) by (simp add: s1_def PT_def Rm_def s4_def)
  have "grows s s4" by (rule grows_eqI) (simp_all add: s4_def s1_def)
  then have "grows s (insertTargets v CS Rm s4)"
    using grows_trans grows_insertTargets by blast
  then show ?thesis unfolding s' by (simp add: grows_def)
qed

lemma constructDynamicCall_IC:
  assumes "constructDynamicCall E CS s = Inr (b, s')"
  shows "IndirectCalls s' = IndirectCalls s \<or>
         (\<exists>c c'. map_of (IndirectCalls s) CS = Some c \<and> c < c' \<and>
                  IndirectCalls s' = AList.update CS c' (IndirectCalls s))"
  using assms
  by (cases rule: constructDynamicCall_cases) auto


lemma constructDynamicCall_visited:
  assumes "constructDynamicCall E CS s = Inr (b, s')"
  shows "VisitedFunctions s' = VisitedFunctions s"
  using assms
  by (cases rule: constructDynamicCall_cases) auto

lemma constructDynamicCall_keys:
  assumes "constructDynamicCall E CS s = Inr (b, s')"
  shows "map fst (IndirectCalls s') = map fst (IndirectCalls s)"
proof -
  have "\<And>c c'. map_of (IndirectCalls s) CS = Some c \<Longrightarrow>
      map fst (AList.update CS c' (IndirectCalls s)) = map fst (IndirectCalls s)"
    by (metis domI dom_map_of_conv_image_fst image_set update_keys)
  then show ?thesis using constructDynamicCall_IC [OF assms] by auto
qed

lemma sites_ok_constructDynamicCall:
  assumes "constructDynamicCall E CS s = Inr (b, s')" "sites_ok s"
  shows "sites_ok s'"
  unfolding sites_ok_def
proof (intro allI impI)
  fix n c assume a: "map_of (IndirectCalls s') n = Some c"
  have "\<exists>c0. map_of (IndirectCalls s) n = Some c0"
    using constructDynamicCall_IC [OF assms(1)] a
    by (auto simp: update_conv' split: if_splits)
  then show "fst n \<in> VisitedFunctions s'"
    using assms(2) constructDynamicCall_visited [OF assms(1)] unfolding sites_ok_def by blast
qed

lemma visited_ok_grows:
  "visited_ok s \<Longrightarrow> grows s s' \<Longrightarrow> VisitedFunctions s' = VisitedFunctions s \<Longrightarrow> visited_ok s'"
  unfolding visited_ok_def by (metis grows_keeps_vertex not_Some_eq)

lemma constructDynamicCall_graph:
  assumes run: "constructDynamicCall E CS s = Inr (b, s')"
    and "vertex_map_ok s" "edges_ok s" "sites_ok s" "distinct (edges (CallGraph s))"
  shows "vertex_map_ok s' \<and> edges_ok s' \<and> distinct (edges (CallGraph s'))"
  using run
proof (cases rule: constructDynamicCall_cases)
  case (notCall v)
  then show ?thesis using assms by simp
next
  case (noNew v T c)
  let ?s2 = "snd (resolve E T CS (callHook (PreCall CS) (preCall (ResV E) CS) s))"
  have "vertex_map_ok ?s2 = vertex_map_ok s" by (rule vertex_map_ok_eqI) simp_all
  moreover have "edges_ok ?s2 = edges_ok s" by (rule edges_ok_eqI) simp_all
  ultimately show ?thesis using assms noNew by simp
next
  case (new v T c)
  define s1 where "s1 = callHook (PreCall CS) (preCall (ResV E) CS) s"
  define PT where "PT = fst (resolve E T CS s1)"
  define Rm where "Rm = remainingTargets s v CS PT"
  define s4 where "s4 = callHook (HandlePossibleTargets CS Rm) (handlePossibleTargets (ResV E) CS Rm)
                    ((snd (resolve E T CS s1))\<lparr>IndirectCalls := AList.update CS (length PT) (IndirectCalls s)\<rparr>)"
  have s': "s' = callHook (PostCall CS) (postCall (ResV E) CS) (insertTargets v CS Rm s4)"
    using new(7) by (simp add: s1_def PT_def Rm_def s4_def)
  have same: "FunctionVertexMap s4 = FunctionVertexMap s" "CallGraph s4 = CallGraph s"
    "VisitedFunctions s4 = VisitedFunctions s"
    by (simp_all add: s4_def s1_def)
  have 1: "vertex_map_ok s4" using assms(2) vertex_map_ok_eqI [OF same(1,2)] by simp
  have 2: "edges_ok s4" using assms(3) edges_ok_eqI [OF same] by simp
  have 3: "distinct (edges (CallGraph s4))" using assms(5) same by simp
  have 4: "FunctionVertexMap s4 (fst CS) = Some v" using new(1) same by simp
  have 5: "fst CS \<in> VisitedFunctions s4"
    using assms(4) new(4) same unfolding sites_ok_def by blast
  have 6: "unconnected s4 v CS Rm"
    using unconnected_remaining [of s v CS PT] unconnected_eqI [OF same(2)] by (simp add: Rm_def)
  have 7: "distinct Rm"
    by (simp add: Rm_def remainingTargets_def PT_def)
  show ?thesis
    unfolding s'
    using vertex_map_ok_insertTargets [OF 1, of v CS Rm]
      edges_ok_insertTargets [OF 1 2 4 5, of Rm]
      distinct_insertTargets [OF 1 2 3 4 5 6 7]
    by simp
qed

subsection \<open>The loops\<close>

lemma drainWorklist_induct:
  assumes run: "drainWorklist E fp s = Some (Inr (fp', s'))"
    and init: "P s"
    and step: "\<And>s F wl. P s \<Longrightarrow> FunctionWL s = Some F # wl \<Longrightarrow>
                 P (snd (processFunction E F (s\<lparr>FunctionWL := wl\<rparr>)))"
  shows "P s'"
proof -
  have "E = E \<longrightarrow> P s \<longrightarrow> (\<forall>b t. Inr (fp', s') = (Inr (b, t) :: error + bool \<times> 'a builder) \<longrightarrow> P t)"
    using run
  proof (rule drainWorklist.raw_induct [rotated,
        where P = "\<lambda>E0 b0 s0 y. E0 = E \<longrightarrow> P s0 \<longrightarrow> (\<forall>b t. y = Inr (b, t) \<longrightarrow> P t)"])
    fix dw :: "'a env \<Rightarrow> bool \<Rightarrow> 'a builder \<Rightarrow> (error + bool \<times> 'a builder) option"
    fix E0 b0 s0 y
    assume IH: "\<And>E1 b1 s1 y1. dw E1 b1 s1 = Some y1 \<Longrightarrow>
        E1 = E \<longrightarrow> P s1 \<longrightarrow> (\<forall>b t. y1 = Inr (b, t) \<longrightarrow> P t)"
    assume body: "(case FunctionWL s0 of [] \<Rightarrow> Some (Inr (b0, s0))
      | None # wl \<Rightarrow> Some (Inl NullDereference)
      | Some F # wl \<Rightarrow>
          (case processFunction E0 F (s0\<lparr>FunctionWL := wl\<rparr>) of
           (b, s') \<Rightarrow> dw E0 (b0 \<and> b) s')) = Some y"
    show "E0 = E \<longrightarrow> P s0 \<longrightarrow> (\<forall>b t. y = Inr (b, t) \<longrightarrow> P t)"
    proof (intro impI allI)
      fix b t assume E0: "E0 = E" and P0: "P s0" and y: "y = Inr (b, t)"
      show "P t"
      proof (cases "FunctionWL s0")
        case Nil
        then show ?thesis using body y P0 by simp
      next
        case (Cons a wl)
        show ?thesis
        proof (cases a)
          case None
          then show ?thesis using body y Cons by simp
        next
          case (Some F)
          let ?r = "processFunction E0 F (s0\<lparr>FunctionWL := wl\<rparr>)"
          have 1: "dw E0 (b0 \<and> fst ?r) (snd ?r) = Some y"
            using body Cons Some by (simp add: case_prod_beta)
          have 2: "P (snd ?r)"
            using step [OF P0, of F wl] Cons Some E0 by simp
          show ?thesis using IH [OF 1] E0 y 2 by simp
        qed
      qed
    qed
  qed
  then show ?thesis using init by simp
qed

lemma indirectPass_induct:
  assumes run: "indirectPass E ns fp s = Inr (fp', s')"
    and init: "P s"
    and step: "\<And>n s b s'. P s \<Longrightarrow> n \<in> set ns \<Longrightarrow> constructDynamicCall E n s = Inr (b, s') \<Longrightarrow> P s'"
  shows "P s'"
  using run init step
proof (induction ns arbitrary: fp s)
  case Nil
  then show ?case by simp
next
  case (Cons n ns)
  show ?case
  proof (cases "constructDynamicCall E n s")
    case (Inl e)
    then show ?thesis using Cons.prems(1) by simp
  next
    case (Inr r)
    have run': "indirectPass E ns (fp \<and> \<not> fst r) (snd r) = Inr (fp', s')"
      using Cons.prems(1) Inr by (simp add: case_prod_beta)
    have "constructDynamicCall E n s = Inr (fst r, snd r)"
      using Inr by simp
    then have P1: "P (snd r)"
      using Cons.prems(3) [OF Cons.prems(2), of n "fst r" "snd r"] by simp
    have step': "\<And>m t b t'. P t \<Longrightarrow> m \<in> set ns \<Longrightarrow> constructDynamicCall E m t = Inr (b, t') \<Longrightarrow> P t'"
      using Cons.prems(3) by (meson list.set_intros(2))
    show ?thesis
      by (rule Cons.IH [OF run' P1 step'])
  qed
qed

lemma iteration_cases:
  assumes "iteration E s = Some (Inr (fp, s'))"
  obtains fp1 s1 where "drainWorklist E True s = Some (Inr (fp1, s1))"
    "indirectPass E (map fst (IndirectCalls s1)) fp1 s1 = Inr (fp, s')"
proof (cases "drainWorklist E True s")
  case None
  then show ?thesis using assms by (simp add: iteration_def)
next
  case (Some r)
  show ?thesis
  proof (cases r)
    case (Inl e)
    then show ?thesis using assms Some by (simp add: iteration_def)
  next
    case (Inr x)
    then show ?thesis using assms Some that [of "fst x" "snd x"]
      by (simp add: iteration_def case_prod_beta)
  qed
qed


lemma fixpointLoop_induct:
  assumes run: "fixpointLoop E s = Some (Inr s')"
    and init: "P s"
    and step: "\<And>s fp s'. P s \<Longrightarrow> iteration E s = Some (Inr (fp, s')) \<Longrightarrow> P s'"
  shows "P s'"
proof -
  have "E = E \<longrightarrow> P s \<longrightarrow> (\<forall>t. Inr s' = (Inr t :: error + 'a builder) \<longrightarrow> P t)"
    using run
  proof (rule fixpointLoop.raw_induct [rotated,
        where P = "\<lambda>E0 s0 y. E0 = E \<longrightarrow> P s0 \<longrightarrow> (\<forall>t. y = Inr t \<longrightarrow> P t)"])
    fix fl :: "'a env \<Rightarrow> 'a builder \<Rightarrow> (error + 'a builder) option"
    fix E0 s0 y
    assume IH: "\<And>E1 s1 y1. fl E1 s1 = Some y1 \<Longrightarrow>
        E1 = E \<longrightarrow> P s1 \<longrightarrow> (\<forall>t. y1 = Inr t \<longrightarrow> P t)"
    assume body: "(case iteration E0 s0 of None \<Rightarrow> None | Some (Inl e) \<Rightarrow> Some (Inl e)
      | Some (Inr (FixpointReached, s')) \<Rightarrow>
          if FixpointReached then Some (Inr s') else fl E0 s') = Some y"
    show "E0 = E \<longrightarrow> P s0 \<longrightarrow> (\<forall>t. y = Inr t \<longrightarrow> P t)"
    proof (intro impI allI)
      fix t assume E0: "E0 = E" and P0: "P s0" and y: "y = Inr t"
      show "P t"
      proof (cases "iteration E0 s0")
        case None
        then show ?thesis using body by simp
      next
        case (Some r)
        show ?thesis
        proof (cases r)
          case (Inl e)
          then show ?thesis using body Some y by simp
        next
          case (Inr x)
          have it: "iteration E s0 = Some (Inr (fst x, snd x))"
            using Some Inr E0 by simp
          have P1: "P (snd x)" by (rule step [OF P0 it])
          have rest: "(if fst x then Some (Inr (snd x)) else fl E0 (snd x)) = Some y"
            using body Some Inr by (simp add: case_prod_beta)
          show ?thesis
          proof (cases "fst x")
            case True
            then show ?thesis using rest y P1 by simp
          next
            case False
            then have "fl E0 (snd x) = Some y" using rest by simp
            then show ?thesis using IH E0 P1 y by blast
          qed
        qed
      qed
    qed
  qed
  then show ?thesis using init by simp
qed

lemma constructing_iteration:
  assumes run: "iteration E s = Some (Inr (fp, s'))" and c: "constructing E s0 s"
  shows "constructing E s0 s'"
  using run
proof (cases rule: iteration_cases)
  case (1 fp1 s1)
  have c1: "constructing E s0 s1"
    by (rule drainWorklist_induct [OF 1(1), of "constructing E s0", OF c]) (rule constructing.pop)
  let ?P = "\<lambda>t. constructing E s0 t \<and> map fst (IndirectCalls t) = map fst (IndirectCalls s1)"
  have "?P s'"
  proof (rule indirectPass_induct [OF 1(2), of ?P])
    show "?P s1" using c1 by simp
  next
    fix n t b t'
    assume P: "?P t" and n: "n \<in> set (map fst (IndirectCalls s1))"
      and d: "constructDynamicCall E n t = Inr (b, t')"
    have "n \<in> fst ` set (IndirectCalls t)" using P n by (metis image_set)
    then have "constructing E s0 t'" using constructing.dyn P d by blast
    then show "?P t'" using constructDynamicCall_keys [OF d] P by simp
  qed
  then show ?thesis by simp
qed

lemma constructing_fixpointLoop:
  assumes "fixpointLoop E s = Some (Inr s')"
  shows "constructing E s s'"
  by (rule fixpointLoop_induct [OF assms, of "constructing E s"])
     (simp_all add: constructing.start constructing_iteration)

subsection \<open>The invariants hold throughout\<close>

lemma builder_inv_initial: "builder_inv (initialBuilder r wl)"
  by (simp add: builder_inv_def initialBuilder_def vertex_map_ok_def edges_ok_def sites_ok_def
        visited_ok_def empty_graph_def)

lemma builder_inv_WL [simp]: "builder_inv (s\<lparr>FunctionWL := wl\<rparr>) = builder_inv s"
  by (simp add: builder_inv_def vertex_map_ok_def edges_ok_def sites_ok_def visited_ok_def)

lemma builder_inv_processFunction: "builder_inv s \<Longrightarrow> builder_inv (snd (processFunction E F s))"
  using processFunction_inv [of s E F] by (simp add: builder_inv_def)

lemma builder_inv_constructDynamicCall:
  assumes "builder_inv s" "constructDynamicCall E CS s = Inr (b, s')"
  shows "builder_inv s'"
  using assms(1) constructDynamicCall_graph [OF assms(2)] sites_ok_constructDynamicCall [OF assms(2)]
    visited_ok_grows [OF _ constructDynamicCall_grows [OF assms(2)] constructDynamicCall_visited [OF assms(2)]]
  by (simp add: builder_inv_def)

lemma builder_inv_constructing:
  "constructing E s0 s \<Longrightarrow> builder_inv s0 \<Longrightarrow> builder_inv s"
proof (induction rule: constructing.induct)
  case start
  then show ?case .
next
  case (pop s F wl)
  then show ?case using builder_inv_processFunction [of "s\<lparr>FunctionWL := wl\<rparr>" E F] by simp
next
  case (dyn s CS NewTargetsFound s')
  then show ?case using builder_inv_constructDynamicCall by blast
qed

subsection \<open>Counts and edges\<close>

lemma siteEdges_grows:
  assumes "grows s s'"
  shows "length (siteEdges s n) \<le> length (siteEdges s' n)"
proof (cases "FunctionVertexMap s (fst n)")
  case None
  then show ?thesis by (simp add: siteEdges_def)
next
  case (Some v)
  have v': "FunctionVertexMap s' (fst n) = Some v"
    by (rule grows_keeps_vertex [OF assms Some])
  obtain es where es: "edges (CallGraph s') = edges (CallGraph s) @ es"
    using assms unfolding grows_def prefix_def by blast
  show ?thesis by (simp add: siteEdges_def Some v' out_edges_def es)
qed

lemma old_or_zero_eqI: "IndirectCalls s' = IndirectCalls s \<Longrightarrow> old_or_zero s s'"
  by (simp add: old_or_zero_def)

lemma old_or_zero_trans: "old_or_zero s s' \<Longrightarrow> old_or_zero s' s'' \<Longrightarrow> old_or_zero s s''"
  unfolding old_or_zero_def by blast

lemma counts_ok_step:
  assumes "counts_ok s" "grows s s'" "old_or_zero s s'"
  shows "counts_ok s'"
  unfolding counts_ok_def
proof (intro allI impI)
  fix n c assume "map_of (IndirectCalls s') n = Some c"
  then have "c = 0 \<or> map_of (IndirectCalls s) n = Some c"
    using assms(3) unfolding old_or_zero_def by blast
  then show "c \<le> length (siteEdges s' n)"
  proof
    assume "c = 0" then show ?thesis by simp
  next
    assume "map_of (IndirectCalls s) n = Some c"
    then have "c \<le> length (siteEdges s n)" using assms(1) unfolding counts_ok_def by blast
    then show ?thesis using siteEdges_grows [OF assms(2), of n] by simp
  qed
qed

lemma old_or_zero_processInst: "old_or_zero (snd x) (snd (processInst E v I x))"
  unfolding old_or_zero_def
  by (metis processInst_IC_other processInst_IC_self)

lemma old_or_zero_scan: "old_or_zero (snd x) (snd (fold (processInst E v) Is x))"
proof (induction Is arbitrary: x)
  case Nil
  show ?case by (simp add: old_or_zero_def)
next
  case (Cons I Is)
  show ?case
    using old_or_zero_trans [OF old_or_zero_processInst [of x E v I] Cons [of "processInst E v I x"]]
    by simp
qed

lemma old_or_zero_processFunction: "old_or_zero s (snd (processFunction E F s))"
proof (cases rule: processFunction_cases [of E F s])
  case skip
  then show ?thesis by (simp add: old_or_zero_def)
next
  case scan
  let ?s0 = "s\<lparr>VisitedFunctions := insert F (VisitedFunctions s)\<rparr>"
  have "old_or_zero s (snd (vertexFor F ?s0))"
    by (rule old_or_zero_eqI) simp
  then show ?thesis
    unfolding scan(3)
    using old_or_zero_trans [OF _ old_or_zero_scan [of "(True, snd (vertexFor F ?s0))", simplified]]
    by blast
qed

lemma counts_ok_processFunction: "counts_ok s \<Longrightarrow> counts_ok (snd (processFunction E F s))"
  using counts_ok_step [OF _ grows_processFunction old_or_zero_processFunction] .

lemma siteEdges_WL [simp]: "siteEdges (s\<lparr>FunctionWL := wl\<rparr>) n = siteEdges s n"
  by (simp add: siteEdges_def split: option.splits)

lemma counts_ok_WL [simp]: "counts_ok (s\<lparr>FunctionWL := wl\<rparr>) = counts_ok s"
  by (simp add: counts_ok_def)

lemma length_le_connected:
  assumes "distinct PT"
  shows "length PT \<le> length C + length (filter (\<lambda>t. t \<notin> set C) PT)"
proof -
  have "length (filter (\<lambda>t. t \<in> set C) PT) = card (set (filter (\<lambda>t. t \<in> set C) PT))"
    using distinct_card [of "filter (\<lambda>t. t \<in> set C) PT"] assms by simp
  also have "\<dots> \<le> card (set C)"
    by (rule card_mono) auto
  also have "\<dots> \<le> length C"
    by (rule card_length)
  finally have "length (filter (\<lambda>t. t \<in> set C) PT) \<le> length C" .
  moreover have "length PT = length (filter (\<lambda>t. t \<in> set C) PT) + length (filter (\<lambda>t. t \<notin> set C) PT)"
    using sum_length_filter_compl [of "\<lambda>t. t \<in> set C" PT] by simp
  ultimately show ?thesis by simp
qed

lemma constructDynamicCall_new_edges:
  assumes run: "constructDynamicCall E CS s = Inr (True, s')"
  obtains v T where "FunctionVertexMap s (fst CS) = Some v" "TH E = Some T"
    "edges (CallGraph s') = edges (CallGraph s) @
       map (\<lambda>t. (v, the (FunctionVertexMap s' t), CS))
         (remainingTargets s v CS (fst (resolve E T CS (callHook (PreCall CS) (preCall (ResV E) CS) s))))"
    "FunctionWL s' =
       rev (map Some (remainingTargets s v CS (fst (resolve E T CS (callHook (PreCall CS) (preCall (ResV E) CS) s)))))
       @ FunctionWL s"
    "IndirectCalls s' =
       AList.update CS (length (fst (resolve E T CS (callHook (PreCall CS) (preCall (ResV E) CS) s))))
         (IndirectCalls s)"
  using run
proof (cases rule: constructDynamicCall_cases)
  case (new v T c)
  define s1 where "s1 = callHook (PreCall CS) (preCall (ResV E) CS) s"
  define PT where "PT = fst (resolve E T CS s1)"
  define Rm where "Rm = remainingTargets s v CS PT"
  define s4 where "s4 = callHook (HandlePossibleTargets CS Rm) (handlePossibleTargets (ResV E) CS Rm)
                    ((snd (resolve E T CS s1))\<lparr>IndirectCalls := AList.update CS (length PT) (IndirectCalls s)\<rparr>)"
  have s': "s' = callHook (PostCall CS) (postCall (ResV E) CS) (insertTargets v CS Rm s4)"
    using new(7) by (simp add: s1_def PT_def Rm_def s4_def)
  have same: "CallGraph s4 = CallGraph s" "FunctionWL s4 = FunctionWL s"
    "IndirectCalls s4 = AList.update CS (length PT) (IndirectCalls s)"
    by (simp_all add: s4_def s1_def)
  have e: "edges (CallGraph s') = edges (CallGraph s) @ map (\<lambda>t. (v, the (FunctionVertexMap s' t), CS)) Rm"
    unfolding s' using insertTargets_edges [of v CS Rm s4] same by simp
  have w: "FunctionWL s' = rev (map Some Rm) @ FunctionWL s"
    unfolding s' using insertTargets_WL [of v CS Rm s4] same by simp
  have i: "IndirectCalls s' = AList.update CS (length PT) (IndirectCalls s)"
    unfolding s' using same by simp
  show ?thesis
    using that [OF new(1) new(3)] e w i unfolding Rm_def PT_def s1_def by blast
qed simp_all

lemma counts_ok_constructDynamicCall:
  assumes ok: "counts_ok s" and run: "constructDynamicCall E CS s = Inr (b, s')"
  shows "counts_ok s'"
proof (cases b)
  case False
  have "IndirectCalls s' = IndirectCalls s"
    using run False by (cases rule: constructDynamicCall_cases) simp_all
  then show ?thesis
    using counts_ok_step [OF ok constructDynamicCall_grows [OF run]] old_or_zero_eqI by blast
next
  case True
  have g: "grows s s'" by (rule constructDynamicCall_grows [OF run])
  have r: "constructDynamicCall E CS s = Inr (True, s')" using run True by simp
  show ?thesis
  proof (rule constructDynamicCall_new_edges [OF r])
  fix v T
  assume v: "FunctionVertexMap s (fst CS) = Some v"
    and e: "edges (CallGraph s') = edges (CallGraph s) @
       map (\<lambda>t. (v, the (FunctionVertexMap s' t), CS))
         (remainingTargets s v CS (fst (resolve E T CS (callHook (PreCall CS) (preCall (ResV E) CS) s))))"
    and i: "IndirectCalls s' =
       AList.update CS (length (fst (resolve E T CS (callHook (PreCall CS) (preCall (ResV E) CS) s))))
         (IndirectCalls s)"
  define PT where "PT = fst (resolve E T CS (callHook (PreCall CS) (preCall (ResV E) CS) s))"
  have dPT: "distinct PT" by (simp add: PT_def)
  have v': "FunctionVertexMap s' (fst CS) = Some v"
    by (rule grows_keeps_vertex [OF g v])
  have len: "length (siteEdges s' CS) = length (siteEdges s CS) + length (remainingTargets s v CS PT)"
    using e by (simp add: siteEdges_def v v' out_edges_def edgeCS_def PT_def)
  have con: "length (connectedTargets (CallGraph s) v CS) = length (siteEdges s CS)"
    by (simp add: connectedTargets_def siteEdges_def v)
  have self: "length PT \<le> length (siteEdges s' CS)"
    using length_le_connected [OF dPT, of "connectedTargets (CallGraph s) v CS"] len con
    by (simp add: remainingTargets_def)
  show ?thesis
    unfolding counts_ok_def
  proof (intro allI impI)
    fix n c assume a: "map_of (IndirectCalls s') n = Some c"
    show "c \<le> length (siteEdges s' n)"
    proof (cases "n = CS")
      case True
      then have "c = length PT" using a i by (simp add: update_conv' PT_def)
      then show ?thesis using self True by simp
    next
      case False
      then have "map_of (IndirectCalls s) n = Some c" using a i by (simp add: update_conv')
      then have "c \<le> length (siteEdges s n)" using ok unfolding counts_ok_def by blast
      then show ?thesis using siteEdges_grows [OF g, of n] by simp
    qed
  qed
  qed
qed

lemma counts_ok_constructing:
  "constructing E s0 s \<Longrightarrow> counts_ok s0 \<Longrightarrow> counts_ok s"
proof (induction rule: constructing.induct)
  case start
  then show ?case .
next
  case (pop s F wl)
  then show ?case using counts_ok_processFunction [of "s\<lparr>FunctionWL := wl\<rparr>" E F] by simp
next
  case (dyn s CS NewTargetsFound s')
  then show ?case using counts_ok_constructDynamicCall by blast
qed

lemma counts_ok_initial: "counts_ok (initialBuilder r wl)"
  by (simp add: counts_ok_def initialBuilder_def)

subsection \<open>Two runs\<close>

lemmas eval_defs =
  buildCallGraph_def iteration_def
  fpEnv_def fpProgram_def noTargets_def noTypes_def changing_def initialBuilder_def
  processFunction_def vertexFor_def add_vertex_def empty_graph_def
  instructions_def processInst_def instrAt_def callHook_def staticCallee_def
  constructDynamicCall_def isCallBase_def resolve_def internalIsVirtualFunctionCall_def
  insertTargets_def insertTarget_def add_edge_def connectedTargets_def out_edges_def
  edgeCS_def edgeTarget_def Let_def


lemma changing_run:
  "buildCallGraph S (fpEnv changing) (initialBuilder 0 [Some 0]) = Some (Inr changingFinal)"
  by (simp add: eval_defs changingFinal_def fixpointLoop.simps drainWorklist.simps
        numeral_2_eq_2 numeral_3_eq_3 image_iff)

subsection \<open>The target set of a site\<close>




subsection \<open>The hook log\<close>




subsection \<open>Counts that are exact\<close>

lemma res_grows_refl [simp]: "res_grows E T s s"
  by (simp add: res_grows_def)

lemma res_grows_trans: "res_grows E T s s' \<Longrightarrow> res_grows E T s' s'' \<Longrightarrow> res_grows E T s s''"
  unfolding res_grows_def by (meson subset_trans)

lemma res_grows_eqI: "Res s' = Res s \<Longrightarrow> res_grows E T s s'"
  by (simp add: res_grows_def)

lemma answersGrowD:
  assumes "answersGrow E T"
  shows "siteAnswer E T n r \<subseteq> siteAnswer E T n (preCall (ResV E) m r)"
    "siteAnswer E T n r \<subseteq> siteAnswer E T n (postCall (ResV E) m r)"
    "siteAnswer E T n r \<subseteq> siteAnswer E T n (otherInst (ResV E) m r)"
    "siteAnswer E T n r \<subseteq> siteAnswer E T n (handlePossibleTargets (ResV E) m ts r)"
    "siteAnswer E T n r \<subseteq> siteAnswer E T n (snd (resolveVirtualCall (ResV E) m r))"
    "siteAnswer E T n r \<subseteq> siteAnswer E T n (snd (resolveFunctionPointer (ResV E) m r))"
  using assms unfolding answersGrow_def by blast+

lemma resolve_Res:
  "Res (snd (resolve E T m s)) =
     (if internalIsVirtualFunctionCall (IRDB E) m T
      then snd (resolveVirtualCall (ResV E) m (Res s))
      else snd (resolveFunctionPointer (ResV E) m (Res s)))"
  by (simp add: resolve_def case_prod_beta)

lemma res_grows_hooks:
  assumes "answersGrow E T"
  shows "res_grows E T s (callHook (PreCall m) (preCall (ResV E) m) s)"
    "res_grows E T s (callHook (PostCall m) (postCall (ResV E) m) s)"
    "res_grows E T s (callHook (OtherInstHook m) (otherInst (ResV E) m) s)"
    "res_grows E T s (callHook (HandlePossibleTargets m ts) (handlePossibleTargets (ResV E) m ts) s)"
    "res_grows E T s (snd (resolve E T' m s))"
  unfolding res_grows_def
  by (intro allI, simp add: answersGrowD [OF assms] resolve_Res)+

lemma sites_kept_refl [simp]: "sites_kept s s"
  by (simp add: sites_kept_def)

lemma sites_kept_trans:
  assumes "sites_kept s s'" "sites_kept s' s''"
  shows "sites_kept s s''"
  unfolding sites_kept_def
proof (intro allI impI)
  fix n c assume a: "map_of (IndirectCalls s'') n = Some c"
  from assms(2) a have "(map_of (IndirectCalls s') n = Some c \<and> siteEdges s'' n = siteEdges s' n \<and>
         siteTargets s'' n = siteTargets s' n) \<or> (c = 0 \<and> siteEdges s'' n = [])"
    unfolding sites_kept_def by blast
  then show "(map_of (IndirectCalls s) n = Some c \<and> siteEdges s'' n = siteEdges s n \<and>
         siteTargets s'' n = siteTargets s n) \<or> (c = 0 \<and> siteEdges s'' n = [])"
  proof
    assume b: "map_of (IndirectCalls s') n = Some c \<and> siteEdges s'' n = siteEdges s' n \<and>
         siteTargets s'' n = siteTargets s' n"
    then have "(map_of (IndirectCalls s) n = Some c \<and> siteEdges s' n = siteEdges s n \<and>
         siteTargets s' n = siteTargets s n) \<or> (c = 0 \<and> siteEdges s' n = [])"
      using assms(1) unfolding sites_kept_def by blast
    then show ?thesis using b by auto
  next
    assume "c = 0 \<and> siteEdges s'' n = []"
    then show ?thesis by simp
  qed
qed

lemma exact_ok_step:
  assumes "exact_ok E T s" "res_grows E T s s'" "sites_kept s s'"
  shows "exact_ok E T s'"
  unfolding exact_ok_def
proof (intro allI impI)
  fix n c assume a: "map_of (IndirectCalls s') n = Some c"
  from assms(3) a have "(map_of (IndirectCalls s) n = Some c \<and> siteEdges s' n = siteEdges s n \<and>
         siteTargets s' n = siteTargets s n) \<or> (c = 0 \<and> siteEdges s' n = [])"
    unfolding sites_kept_def by blast
  then show "c = length (siteEdges s' n) \<and> set (siteTargets s' n) \<subseteq> siteAnswer E T n (Res s')"
  proof
    assume b: "map_of (IndirectCalls s) n = Some c \<and> siteEdges s' n = siteEdges s n \<and>
         siteTargets s' n = siteTargets s n"
    then have "c = length (siteEdges s n) \<and> set (siteTargets s n) \<subseteq> siteAnswer E T n (Res s)"
      using assms(1) unfolding exact_ok_def by blast
    moreover have "siteAnswer E T n (Res s) \<subseteq> siteAnswer E T n (Res s')"
      using assms(2) unfolding res_grows_def by blast
    ultimately show ?thesis using b by auto
  next
    assume "c = 0 \<and> siteEdges s' n = []"
    then show ?thesis by (simp add: siteTargets_def)
  qed
qed

text \<open>A site keeps its edges and targets when every new edge carries another call site.\<close>

lemma site_frame:
  assumes g: "grows s s'" and eo: "edges_ok s" and w: "FunctionVertexMap s (fst n) = Some w"
    and d: "distinct (edges (CallGraph s'))"
    and new: "\<forall>e \<in> set (edges (CallGraph s')). e \<notin> set (edges (CallGraph s)) \<longrightarrow> edgeCS e \<noteq> n"
  shows "siteEdges s' n = siteEdges s n \<and> siteTargets s' n = siteTargets s n"
proof -
  have w': "FunctionVertexMap s' (fst n) = Some w"
    by (rule grows_keeps_vertex [OF g w])
  obtain es where es: "edges (CallGraph s') = edges (CallGraph s) @ es"
    using g unfolding grows_def prefix_def by blast
  have "\<forall>e \<in> set es. edgeCS e \<noteq> n"
    using new d es by auto
  then have none: "filter (\<lambda>e. edgeCS e = n) (filter (\<lambda>e. fst e = w) es) = []"
    by (simp add: filter_empty_conv)
  have 1: "siteEdges s' n = siteEdges s n"
    using none by (simp add: siteEdges_def w w' out_edges_def es)
  have pre: "prefix (vertices (CallGraph s)) (vertices (CallGraph s'))"
    using g by (simp add: grows_def)
  have "\<forall>e \<in> set (siteEdges s n). edgeTarget e < length (vertices (CallGraph s))"
    using eo unfolding edges_ok_def by (simp add: siteEdges_def w out_edges_def)
  then have 2: "siteTargets s' n = siteTargets s n"
    unfolding siteTargets_def 1 using prefix_nth [OF pre] by simp
  show ?thesis using 1 2 by simp
qed

lemma builder_inv_sites_have_vertex: "builder_inv s \<Longrightarrow> sites_have_vertex s"
  unfolding builder_inv_def sites_ok_def visited_ok_def sites_have_vertex_def by blast

lemma siteEdges_eqI:
  "FunctionVertexMap s' = FunctionVertexMap s \<Longrightarrow> CallGraph s' = CallGraph s \<Longrightarrow>
     siteEdges s' n = siteEdges s n \<and> siteTargets s' n = siteTargets s n"
  by (simp add: siteEdges_def siteTargets_def cong: option.case_cong)

lemma sites_kept_eqI:
  assumes "IndirectCalls s' = IndirectCalls s" "FunctionVertexMap s' = FunctionVertexMap s"
    "CallGraph s' = CallGraph s"
  shows "sites_kept s s'"
  using siteEdges_eqI [OF assms(2,3)] assms(1) by (simp add: sites_kept_def)

lemma res_grows_processInst:
  assumes "answersGrow E T"
  shows "res_grows E T (snd x) (snd (processInst E v I x))"
proof (cases rule: processInst_cases [of E I v x])
  case other
  then show ?thesis using res_grows_hooks(3) [OF assms] by simp
next
  case (static cf nm asm t)
  let ?s1 = "callHook (PreCall I) (preCall (ResV E) I) (snd x)"
  let ?s2 = "callHook (HandlePossibleTargets I [t]) (handlePossibleTargets (ResV E) I [t]) ?s1"
  let ?s3 = "insertTargets v I [t] ?s2"
  have a: "res_grows E T (snd x) ?s2"
    using res_grows_trans [OF res_grows_hooks(1) [OF assms] res_grows_hooks(4) [OF assms]] .
  have b: "res_grows E T ?s2 ?s3" by (rule res_grows_eqI) (simp del: insertTargets_Cons)
  have c: "res_grows E T ?s3 (callHook (PostCall I) (postCall (ResV E) I) ?s3)"
    by (rule res_grows_hooks(2) [OF assms])
  show ?thesis
    unfolding static(3) using res_grows_trans [OF res_grows_trans [OF a b] c] by simp
next
  case (inlineAsm cf nm)
  then show ?thesis using res_grows_hooks(1) [OF assms] by simp
next
  case (indirect cf nm)
  have "res_grows E T (snd x) (callHook (PreCall I) (preCall (ResV E) I) (snd x))"
    by (rule res_grows_hooks(1) [OF assms])
  then show ?thesis unfolding indirect(3) by (simp add: res_grows_def)
qed

lemma sites_kept_processInst:
  assumes vm: "vertex_map_ok (snd x)" and eo: "edges_ok (snd x)"
    and d: "distinct (edges (CallGraph (snd x)))"
    and v: "FunctionVertexMap (snd x) (fst I) = Some v" and vis: "fst I \<in> VisitedFunctions (snd x)"
    and lab: "\<forall>e \<in> set (edges (CallGraph (snd x))). edgeCS e \<noteq> I"
    and none: "map_of (IndirectCalls (snd x)) I = None"
    and hv: "sites_have_vertex (snd x)"
  shows "sites_kept (snd x) (snd (processInst E v I x))"
proof (cases rule: processInst_cases [of E I v x])
  case other
  then show ?thesis by (simp add: sites_kept_eqI)
next
  case (inlineAsm cf nm)
  then show ?thesis by (simp add: sites_kept_eqI)
next
  case (indirect cf nm)
  let ?s' = "(callHook (PreCall I) (preCall (ResV E) I) (snd x))
            \<lparr>IndirectCalls := AList.update I 0 (IndirectCalls (snd x))\<rparr>"
  have same: "siteEdges ?s' n = siteEdges (snd x) n" "siteTargets ?s' n = siteTargets (snd x) n" for n
    using siteEdges_eqI [of ?s' "snd x" n] by simp_all
  have empty: "siteEdges (snd x) I = []"
    using lab by (auto simp: siteEdges_def out_edges_def filter_empty_conv split: option.splits)
  have "sites_kept (snd x) ?s'"
    unfolding sites_kept_def
  proof (intro allI impI)
    fix n c assume a: "map_of (IndirectCalls ?s') n = Some c"
    show "(map_of (IndirectCalls (snd x)) n = Some c \<and> siteEdges ?s' n = siteEdges (snd x) n \<and>
         siteTargets ?s' n = siteTargets (snd x) n) \<or> (c = 0 \<and> siteEdges ?s' n = [])"
    proof (cases "n = I")
      case True
      then show ?thesis using a same empty by (simp add: update_conv')
    next
      case False
      then show ?thesis using a same by (simp add: update_conv')
    qed
  qed
  then show ?thesis unfolding indirect(3) by simp
next
  case (static cf nm asm t)
  let ?s' = "snd (processInst E v I x)"
  have ic: "IndirectCalls ?s' = IndirectCalls (snd x)"
    unfolding static(3) by (simp del: insertTargets_Cons)
  have g: "grows (snd x) ?s'" by (rule grows_processInst)
  have d': "distinct (edges (CallGraph ?s'))"
    by (rule distinct_processInst [OF vm eo d v vis lab])
  show ?thesis
    unfolding sites_kept_def
  proof (intro allI impI)
    fix n c assume a: "map_of (IndirectCalls ?s') n = Some c"
    then have old: "map_of (IndirectCalls (snd x)) n = Some c" using ic by simp
    then have nI: "n \<noteq> I" using none by auto
    obtain w where w: "FunctionVertexMap (snd x) (fst n) = Some w"
      using hv old unfolding sites_have_vertex_def by blast
    have new: "\<forall>e \<in> set (edges (CallGraph ?s')). e \<notin> set (edges (CallGraph (snd x))) \<longrightarrow> edgeCS e \<noteq> n"
      using processInst_labels [of _ E v I x] nI by blast
    show "(map_of (IndirectCalls (snd x)) n = Some c \<and> siteEdges ?s' n = siteEdges (snd x) n \<and>
         siteTargets ?s' n = siteTargets (snd x) n) \<or> (c = 0 \<and> siteEdges ?s' n = [])"
      using old site_frame [OF g eo w d' new] by simp
  qed
qed

lemma sites_have_vertex_processInst:
  assumes hv: "sites_have_vertex (snd x)" and v: "FunctionVertexMap (snd x) (fst I) = Some v"
  shows "sites_have_vertex (snd (processInst E v I x))"
  unfolding sites_have_vertex_def
proof (intro allI impI)
  fix n c assume a: "map_of (IndirectCalls (snd (processInst E v I x))) n = Some c"
  have g: "grows (snd x) (snd (processInst E v I x))" by (rule grows_processInst)
  show "FunctionVertexMap (snd (processInst E v I x)) (fst n) \<noteq> None"
  proof (cases "n = I")
    case True
    then show ?thesis using grows_keeps_vertex [OF g v] by simp
  next
    case False
    then have "map_of (IndirectCalls (snd x)) n = Some c"
      using a processInst_IC_other [of n I E v x] by simp
    then obtain w where "FunctionVertexMap (snd x) (fst n) = Some w"
      using hv unfolding sites_have_vertex_def by blast
    then show ?thesis using grows_keeps_vertex [OF g] by simp
  qed
qed

lemma scan_exact:
  assumes "vertex_map_ok (snd x)" "edges_ok (snd x)" "distinct (edges (CallGraph (snd x)))"
    and "FunctionVertexMap (snd x) F = Some v" "F \<in> VisitedFunctions (snd x)"
    and "distinct Is" "\<forall>I \<in> set Is. fst I = F"
    and "\<forall>e \<in> set (edges (CallGraph (snd x))). edgeCS e \<notin> set Is"
    and "\<forall>I \<in> set Is. map_of (IndirectCalls (snd x)) I = None"
    and "sites_have_vertex (snd x)"
    and ag: "answersGrow E T"
  shows "sites_kept (snd x) (snd (fold (processInst E v) Is x)) \<and>
         res_grows E T (snd x) (snd (fold (processInst E v) Is x))"
  using assms(1-10)
proof (induction Is arbitrary: x)
  case Nil
  then show ?case by simp
next
  case (Cons I Is)
  let ?x1 = "processInst E v I x"
  have fI: "fst I = F" using Cons.prems(7) by simp
  have vI: "FunctionVertexMap (snd x) (fst I) = Some v" using Cons.prems(4) fI by simp
  have visI: "fst I \<in> VisitedFunctions (snd x)" using Cons.prems(5) fI by simp
  have labI: "\<forall>e \<in> set (edges (CallGraph (snd x))). edgeCS e \<noteq> I"
    using Cons.prems(8) by auto
  have noneI: "map_of (IndirectCalls (snd x)) I = None" using Cons.prems(9) by simp
  have 1: "vertex_map_ok (snd ?x1)"
    using Cons.prems(1) by (rule vertex_map_ok_processInst)
  have 2: "edges_ok (snd ?x1)"
    by (rule edges_ok_processInst [OF Cons.prems(1,2) vI visI])
  have 3: "distinct (edges (CallGraph (snd ?x1)))"
    by (rule distinct_processInst [OF Cons.prems(1,2,3) vI visI labI])
  have 4: "FunctionVertexMap (snd ?x1) F = Some v"
    using grows_keeps_vertex [OF grows_processInst Cons.prems(4)] .
  have 5: "F \<in> VisitedFunctions (snd ?x1)"
    using Cons.prems(5) by simp
  have 6: "distinct Is" using Cons.prems(6) by simp
  have 7: "\<forall>J \<in> set Is. fst J = F" using Cons.prems(7) by simp
  have 8: "\<forall>e \<in> set (edges (CallGraph (snd ?x1))). edgeCS e \<notin> set Is"
  proof
    fix e assume "e \<in> set (edges (CallGraph (snd ?x1)))"
    then have "e \<in> set (edges (CallGraph (snd x))) \<or> edgeCS e = I"
      by (rule processInst_labels)
    moreover have "I \<notin> set Is" using Cons.prems(6) by simp
    ultimately show "edgeCS e \<notin> set Is"
      using Cons.prems(8) by (metis list.set_intros(2))
  qed
  have 9: "\<forall>J \<in> set Is. map_of (IndirectCalls (snd ?x1)) J = None"
  proof
    fix J assume J: "J \<in> set Is"
    then have "J \<noteq> I" using Cons.prems(6) by auto
    then show "map_of (IndirectCalls (snd ?x1)) J = None"
      using processInst_IC_other [of J I E v x] Cons.prems(9) J by simp
  qed
  have 10: "sites_have_vertex (snd ?x1)"
    by (rule sites_have_vertex_processInst [OF Cons.prems(10) vI])
  have k: "sites_kept (snd x) (snd ?x1)"
    by (rule sites_kept_processInst [OF Cons.prems(1,2,3) vI visI labI noneI Cons.prems(10)])
  have r: "res_grows E T (snd x) (snd ?x1)"
    by (rule res_grows_processInst [OF ag])
  have ih: "sites_kept (snd ?x1) (snd (fold (processInst E v) Is ?x1)) \<and>
         res_grows E T (snd ?x1) (snd (fold (processInst E v) Is ?x1))"
    by (rule Cons.IH [OF 1 2 3 4 5 6 7 8 9 10])
  show ?case
    using sites_kept_trans [OF k] res_grows_trans [OF r] ih by simp
qed

lemma processFunction_exact:
  assumes inv: "builder_inv s" and ag: "answersGrow E T"
  shows "sites_kept s (snd (processFunction E F s)) \<and> res_grows E T s (snd (processFunction E F s))"
proof (cases rule: processFunction_cases [of E F s])
  case skip
  then show ?thesis by simp
next
  case scan
  let ?s0 = "s\<lparr>VisitedFunctions := insert F (VisitedFunctions s)\<rparr>"
  let ?s1 = "snd (vertexFor F ?s0)"
  let ?v = "fst (vertexFor F ?s0)"
  let ?x = "(True, ?s1)"
  have vm: "vertex_map_ok s" and eo: "edges_ok s" and so: "sites_ok s" and vo: "visited_ok s"
    and d: "distinct (edges (CallGraph s))"
    using inv by (simp_all add: builder_inv_def)
  have hv: "sites_have_vertex s" by (rule builder_inv_sites_have_vertex [OF inv])
  have g: "grows s ?s1"
    using grows_trans [of s ?s0 ?s1] grows_vertexFor [of ?s0 F] by (auto simp: grows_def)
  have 1: "vertex_map_ok ?s1"
    using vm by (intro vertexFor_vertex_map_ok) simp
  have 2: "edges_ok ?s1"
    unfolding edges_ok_def
  proof
    fix e assume e: "e \<in> set (edges (CallGraph ?s1))"
    then have e0: "e \<in> set (edges (CallGraph s))" by simp
    have "length (vertices (CallGraph s)) \<le> length (vertices (CallGraph ?s1))"
      using g by (simp add: grows_def prefix_length_le)
    then show "FunctionVertexMap ?s1 (fst (edgeCS e)) = Some (fst e) \<and>
        edgeTarget e < length (vertices (CallGraph ?s1)) \<and> fst (edgeCS e) \<in> VisitedFunctions ?s1"
      using eo e0 grows_keeps_vertex [OF g] unfolding edges_ok_def by fastforce
  qed
  have 3: "distinct (edges (CallGraph ?s1))" using d by simp
  have 4: "FunctionVertexMap ?s1 F = Some ?v" by (rule vertexFor_has)
  have 5: "F \<in> VisitedFunctions ?s1" by simp
  have 8: "\<forall>e \<in> set (edges (CallGraph ?s1)). edgeCS e \<notin> set (instructions (IRDB E) F)"
    using eo scan(2) instructions_fst unfolding edges_ok_def by fastforce
  have 9: "\<forall>I \<in> set (instructions (IRDB E) F). map_of (IndirectCalls ?s1) I = None"
  proof
    fix I assume "I \<in> set (instructions (IRDB E) F)"
    then have "fst I = F" by (rule instructions_fst)
    then have "map_of (IndirectCalls s) I = None"
      using so scan(2) unfolding sites_ok_def by (metis not_Some_eq)
    then show "map_of (IndirectCalls ?s1) I = None" by simp
  qed
  have 10: "sites_have_vertex ?s1"
    unfolding sites_have_vertex_def
  proof (intro allI impI)
    fix n c assume "map_of (IndirectCalls ?s1) n = Some c"
    then have "map_of (IndirectCalls s) n = Some c" by simp
    then obtain w where "FunctionVertexMap s (fst n) = Some w"
      using hv unfolding sites_have_vertex_def by blast
    then show "FunctionVertexMap ?s1 (fst n) \<noteq> None"
      using grows_keeps_vertex [OF g] by simp
  qed
  have k0: "sites_kept s ?s1"
    unfolding sites_kept_def
  proof (intro allI impI)
    fix n c assume "map_of (IndirectCalls ?s1) n = Some c"
    then have old: "map_of (IndirectCalls s) n = Some c" by simp
    then obtain w where w: "FunctionVertexMap s (fst n) = Some w"
      using hv unfolding sites_have_vertex_def by blast
    have "siteEdges ?s1 n = siteEdges s n \<and> siteTargets ?s1 n = siteTargets s n"
      by (rule site_frame [OF g eo w 3]) simp
    then show "(map_of (IndirectCalls s) n = Some c \<and> siteEdges ?s1 n = siteEdges s n \<and>
         siteTargets ?s1 n = siteTargets s n) \<or> (c = 0 \<and> siteEdges ?s1 n = [])"
      using old by simp
  qed
  have r0: "res_grows E T s ?s1" by (rule res_grows_eqI) simp
  have sc: "sites_kept (snd ?x) (snd (fold (processInst E ?v) (instructions (IRDB E) F) ?x)) \<and>
         res_grows E T (snd ?x) (snd (fold (processInst E ?v) (instructions (IRDB E) F) ?x))"
    by (rule scan_exact [where F = F]) (use 1 2 3 4 5 8 9 10 ag instructions_distinct instructions_fst in simp_all)
  show ?thesis
    unfolding scan(3)
    using sites_kept_trans [OF k0] res_grows_trans [OF r0] sc by simp
qed

lemma siteEdges_mem:
  assumes "e \<in> set (siteEdges s n)"
  shows "e \<in> set (edges (CallGraph s)) \<and> FunctionVertexMap s (fst n) = Some (fst e) \<and> edgeCS e = n"
  using assms by (auto simp: siteEdges_def out_edges_def split: option.splits)

lemma vertex_map_okD:
  "vertex_map_ok s \<Longrightarrow> v < length (vertices (CallGraph s)) \<Longrightarrow>
     FunctionVertexMap s (vertices (CallGraph s) ! v) = Some v"
  unfolding vertex_map_ok_def by blast

lemma vertex_map_okD2:
  "vertex_map_ok s \<Longrightarrow> FunctionVertexMap s F = Some v \<Longrightarrow>
     v < length (vertices (CallGraph s)) \<and> vertices (CallGraph s) ! v = F"
  unfolding vertex_map_ok_def by blast

lemma edges_okD:
  "edges_ok s \<Longrightarrow> e \<in> set (edges (CallGraph s)) \<Longrightarrow>
     FunctionVertexMap s (fst (edgeCS e)) = Some (fst e) \<and>
     edgeTarget e < length (vertices (CallGraph s)) \<and> fst (edgeCS e) \<in> VisitedFunctions s"
  unfolding edges_ok_def by blast

lemma edge_eqI: "fst e = fst e' \<Longrightarrow> edgeTarget e = edgeTarget e' \<Longrightarrow> edgeCS e = edgeCS e' \<Longrightarrow> e = e'"
  by (simp add: edgeTarget_def edgeCS_def prod_eq_iff)

lemma distinct_siteTargets:
  assumes inv: "builder_inv s"
  shows "distinct (siteTargets s n)"
proof -
  have vm: "vertex_map_ok s" and eo: "edges_ok s" and d: "distinct (edges (CallGraph s))"
    using inv by (simp_all add: builder_inv_def)
  have de: "distinct (siteEdges s n)"
    using d by (simp add: siteEdges_def out_edges_def split: option.splits)
  have "inj_on (\<lambda>e. vertices (CallGraph s) ! edgeTarget e) (set (siteEdges s n))"
  proof (rule inj_onI)
    fix e e' assume e: "e \<in> set (siteEdges s n)" and e': "e' \<in> set (siteEdges s n)"
      and eq: "vertices (CallGraph s) ! edgeTarget e = vertices (CallGraph s) ! edgeTarget e'"
    note m = siteEdges_mem [OF e] and m' = siteEdges_mem [OF e']
    have lt: "edgeTarget e < length (vertices (CallGraph s))"
      using edges_okD [OF eo] m by blast
    have lt': "edgeTarget e' < length (vertices (CallGraph s))"
      using edges_okD [OF eo] m' by blast
    have "Some (edgeTarget e) = FunctionVertexMap s (vertices (CallGraph s) ! edgeTarget e)"
      using vertex_map_okD [OF vm lt] by simp
    also have "\<dots> = Some (edgeTarget e')"
      unfolding eq using vertex_map_okD [OF vm lt'] by simp
    finally have t: "edgeTarget e = edgeTarget e'" by simp
    have "Some (fst e) = Some (fst e')" using m m' by metis
    then have f: "fst e = fst e'" by simp
    have c: "edgeCS e = edgeCS e'" using m m' by simp
    show "e = e'" by (rule edge_eqI [OF f t c])
  qed
  then show ?thesis using de by (simp add: siteTargets_def distinct_map)
qed

lemma connectedTargets_siteTargets:
  "FunctionVertexMap s (fst n) = Some v \<Longrightarrow> connectedTargets (CallGraph s) v n = siteTargets s n"
  by (simp add: connectedTargets_def siteTargets_def siteEdges_def)

lemma length_remaining:
  assumes "distinct PT" "distinct C" "set C \<subseteq> set PT"
  shows "length PT = length C + length (filter (\<lambda>t. t \<notin> set C) PT)"
proof -
  have 1: "set (filter (\<lambda>t. t \<in> set C) PT) = set C" using assms(3) by auto
  have 2: "distinct (filter (\<lambda>t. t \<in> set C) PT)" using assms(1) by simp
  have "length (filter (\<lambda>t. t \<in> set C) PT) = card (set (filter (\<lambda>t. t \<in> set C) PT))"
    by (rule distinct_card [OF 2, symmetric])
  also have "\<dots> = card (set C)" by (simp only: 1)
  also have "\<dots> = length C" by (rule distinct_card [OF assms(2)])
  finally have "length (filter (\<lambda>t. t \<in> set C) PT) = length C" .
  then show ?thesis
    using sum_length_filter_compl [of "\<lambda>t. t \<in> set C" PT] by simp
qed

lemma resolvedTargets_answer:
  "set (resolvedTargets E T n s) = siteAnswer E T n (preCall (ResV E) n (Res s))"
  by (simp add: resolvedTargets_def resolve_def siteAnswer_def case_prod_beta)

lemma constructDynamicCall_new_closed:
  assumes run: "constructDynamicCall E CS s = Inr (True, s')"
    and v: "FunctionVertexMap s (fst CS) = Some v" and th: "TH E = Some T"
  shows "edges (CallGraph s') = edges (CallGraph s) @
           map (\<lambda>t. (v, the (FunctionVertexMap s' t), CS))
             (remainingTargets s v CS (resolvedTargets E T CS s))"
    and "FunctionWL s' = rev (map Some (remainingTargets s v CS (resolvedTargets E T CS s))) @ FunctionWL s"
    and "IndirectCalls s' = AList.update CS (length (resolvedTargets E T CS s)) (IndirectCalls s)"
proof -
  have "edges (CallGraph s') = edges (CallGraph s) @
           map (\<lambda>t. (v, the (FunctionVertexMap s' t), CS))
             (remainingTargets s v CS (resolvedTargets E T CS s)) \<and>
        FunctionWL s' = rev (map Some (remainingTargets s v CS (resolvedTargets E T CS s))) @ FunctionWL s \<and>
        IndirectCalls s' = AList.update CS (length (resolvedTargets E T CS s)) (IndirectCalls s)"
  proof (rule constructDynamicCall_new_edges [OF run])
    fix v' T'
    assume "FunctionVertexMap s (fst CS) = Some v'" "TH E = Some T'"
    then have eq: "v' = v" "T' = T" using v th by simp_all
    assume "edges (CallGraph s') = edges (CallGraph s) @
       map (\<lambda>t. (v', the (FunctionVertexMap s' t), CS))
         (remainingTargets s v' CS (fst (resolve E T' CS (callHook (PreCall CS) (preCall (ResV E) CS) s))))"
      and "FunctionWL s' =
       rev (map Some (remainingTargets s v' CS (fst (resolve E T' CS (callHook (PreCall CS) (preCall (ResV E) CS) s)))))
       @ FunctionWL s"
      and "IndirectCalls s' =
       AList.update CS (length (fst (resolve E T' CS (callHook (PreCall CS) (preCall (ResV E) CS) s))))
         (IndirectCalls s)"
    then show ?thesis
      unfolding eq resolvedTargets_def by blast
  qed
  then show "edges (CallGraph s') = edges (CallGraph s) @
           map (\<lambda>t. (v, the (FunctionVertexMap s' t), CS))
             (remainingTargets s v CS (resolvedTargets E T CS s))"
    and "FunctionWL s' = rev (map Some (remainingTargets s v CS (resolvedTargets E T CS s))) @ FunctionWL s"
    and "IndirectCalls s' = AList.update CS (length (resolvedTargets E T CS s)) (IndirectCalls s)"
    by simp_all
qed

lemma exact_ok_constructDynamicCall:
  assumes inv: "builder_inv s" and ok: "exact_ok E T s" and ag: "answersGrow E T"
    and th: "TH E = Some T" and run: "constructDynamicCall E CS s = Inr (b, s')"
  shows "exact_ok E T s'"
  using run
proof (cases rule: constructDynamicCall_cases)
  case (notCall v)
  show ?thesis
    unfolding notCall(4)
    by (rule exact_ok_step [OF ok res_grows_hooks(3) [OF ag]]) (simp add: sites_kept_eqI)
next
  case (noNew v T' c)
  let ?s1 = "callHook (PreCall CS) (preCall (ResV E) CS) s"
  have "res_grows E T s (snd (resolve E T' CS ?s1))"
    using res_grows_trans [OF res_grows_hooks(1) [OF ag] res_grows_hooks(5) [OF ag]] .
  then show ?thesis
    unfolding noNew(7)
    by (rule exact_ok_step [OF ok]) (simp add: sites_kept_eqI)
next
  case (new v T' c)
  have T': "T' = T" using new(3) th by simp
  define PT where "PT = resolvedTargets E T CS s"
  define Rm where "Rm = remainingTargets s v CS PT"
  have r: "constructDynamicCall E CS s = Inr (True, s')" using run new(6) by simp
  have vm: "vertex_map_ok s" and eo: "edges_ok s"
    using inv by (simp_all add: builder_inv_def)
  have hv: "sites_have_vertex s" by (rule builder_inv_sites_have_vertex [OF inv])
  have inv': "builder_inv s'" by (rule builder_inv_constructDynamicCall [OF inv run])
  then have vm': "vertex_map_ok s'" and d': "distinct (edges (CallGraph s'))"
    by (simp_all add: builder_inv_def)
  have g: "grows s s'" by (rule constructDynamicCall_grows [OF run])
  have v': "FunctionVertexMap s' (fst CS) = Some v" by (rule grows_keeps_vertex [OF g new(1)])
  have pre: "prefix (vertices (CallGraph s)) (vertices (CallGraph s'))"
    using g by (simp add: grows_def)
  have e: "edges (CallGraph s') = edges (CallGraph s) @ map (\<lambda>t. (v, the (FunctionVertexMap s' t), CS)) Rm"
    and i: "IndirectCalls s' = AList.update CS (length PT) (IndirectCalls s)"
    using constructDynamicCall_new_closed [OF r new(1) th] by (simp_all add: Rm_def PT_def)
  have dom: "\<forall>t \<in> set Rm. FunctionVertexMap s' t \<noteq> None"
    unfolding new(7) Rm_def PT_def resolvedTargets_def T'
    by (simp add: insertTargets_dom del: insertTargets_Cons)
  have rs1: "res_grows E T s (callHook (PreCall CS) (preCall (ResV E) CS) s)"
    by (rule res_grows_hooks(1) [OF ag])
  have rs: "res_grows E T (callHook (PreCall CS) (preCall (ResV E) CS) s) s'"
  proof -
    let ?s1 = "callHook (PreCall CS) (preCall (ResV E) CS) s"
    let ?s2 = "snd (resolve E T CS ?s1)"
    have a: "res_grows E T ?s1 ?s2" by (rule res_grows_hooks(5) [OF ag])
    have "Res s' = postCall (ResV E) CS (handlePossibleTargets (ResV E) CS Rm (Res ?s2))"
      unfolding new(7) T' Rm_def PT_def resolvedTargets_def by (simp del: insertTargets_Cons)
    then have b: "res_grows E T ?s2 s'"
      unfolding res_grows_def
      using order_trans [OF answersGrowD(4) [OF ag] answersGrowD(2) [OF ag]] by simp
    show ?thesis by (rule res_grows_trans [OF a b])
  qed
  have PTa: "set PT = siteAnswer E T CS (Res (callHook (PreCall CS) (preCall (ResV E) CS) s))"
    by (simp add: PT_def resolvedTargets_answer)
  have dPT: "distinct PT" by (simp add: PT_def resolvedTargets_def)
  have old: "c = length (siteEdges s CS) \<and> set (siteTargets s CS) \<subseteq> siteAnswer E T CS (Res s)"
    using ok new(4) unfolding exact_ok_def by blast
  have sub: "set (siteTargets s CS) \<subseteq> set PT"
    using old rs1 PTa unfolding res_grows_def by blast
  have con: "connectedTargets (CallGraph s) v CS = siteTargets s CS"
    by (rule connectedTargets_siteTargets [OF new(1)])
  have Rm: "Rm = filter (\<lambda>t. t \<notin> set (siteTargets s CS)) PT"
    by (simp add: Rm_def remainingTargets_def con)
  have len: "length PT = length (siteTargets s CS) + length Rm"
    unfolding Rm by (rule length_remaining [OF dPT distinct_siteTargets [OF inv] sub])
  have se: "siteEdges s' CS = siteEdges s CS @ map (\<lambda>t. (v, the (FunctionVertexMap s' t), CS)) Rm"
    by (simp add: siteEdges_def new(1) v' out_edges_def e edgeCS_def)
  have tgt_old: "map (\<lambda>e. vertices (CallGraph s') ! edgeTarget e) (siteEdges s CS) = siteTargets s CS"
  proof -
    have "\<forall>e \<in> set (siteEdges s CS). edgeTarget e < length (vertices (CallGraph s))"
      using eo siteEdges_mem unfolding edges_ok_def by blast
    then show ?thesis unfolding siteTargets_def using prefix_nth [OF pre] by simp
  qed
  have tgt_new: "map (\<lambda>t. vertices (CallGraph s') ! the (FunctionVertexMap s' t)) Rm = Rm"
  proof -
    have "\<forall>t \<in> set Rm. vertices (CallGraph s') ! the (FunctionVertexMap s' t) = t"
    proof
      fix t assume "t \<in> set Rm"
      then obtain a where a: "FunctionVertexMap s' t = Some a" using dom by blast
      then have "vertices (CallGraph s') ! a = t"
        using vm' unfolding vertex_map_ok_def by blast
      then show "vertices (CallGraph s') ! the (FunctionVertexMap s' t) = t" using a by simp
    qed
    then show ?thesis by (simp add: map_idI)
  qed
  have st: "siteTargets s' CS = siteTargets s CS @ Rm"
    unfolding siteTargets_def [of s' CS] se using tgt_old tgt_new
    by (simp add: edgeTarget_def o_def)
  have self_len: "length PT = length (siteEdges s' CS)"
    using len se by (simp add: siteTargets_def)
  have self_sub: "set (siteTargets s' CS) \<subseteq> siteAnswer E T CS (Res s')"
  proof -
    have "set (siteTargets s' CS) \<subseteq> set PT" using st sub Rm by auto
    then show ?thesis using PTa rs unfolding res_grows_def by blast
  qed
  have rall: "res_grows E T s s'" by (rule res_grows_trans [OF rs1 rs])
  show ?thesis
    unfolding exact_ok_def
  proof (intro allI impI)
    fix n k assume a: "map_of (IndirectCalls s') n = Some k"
    show "k = length (siteEdges s' n) \<and> set (siteTargets s' n) \<subseteq> siteAnswer E T n (Res s')"
    proof (cases "n = CS")
      case True
      then have "k = length PT" using a i by (simp add: update_conv')
      then show ?thesis using self_len self_sub True by simp
    next
      case False
      then have o: "map_of (IndirectCalls s) n = Some k" using a i by (simp add: update_conv')
      then obtain w where w: "FunctionVertexMap s (fst n) = Some w"
        using hv unfolding sites_have_vertex_def by blast
      have new_lab: "\<forall>x \<in> set (edges (CallGraph s')). x \<notin> set (edges (CallGraph s)) \<longrightarrow> edgeCS x \<noteq> n"
        using e False by (auto simp: edgeCS_def)
      have fr: "siteEdges s' n = siteEdges s n \<and> siteTargets s' n = siteTargets s n"
        by (rule site_frame [OF g eo w d' new_lab])
      have "k = length (siteEdges s n) \<and> set (siteTargets s n) \<subseteq> siteAnswer E T n (Res s)"
        using ok o unfolding exact_ok_def by blast
      moreover have "siteAnswer E T n (Res s) \<subseteq> siteAnswer E T n (Res s')"
        using rall unfolding res_grows_def by blast
      ultimately show ?thesis using fr by auto
    qed
  qed
qed

lemma exact_ok_WL [simp]: "exact_ok E T (s\<lparr>FunctionWL := wl\<rparr>) = exact_ok E T s"
  using siteEdges_eqI [of "s\<lparr>FunctionWL := wl\<rparr>" s] by (simp add: exact_ok_def)

lemma exact_ok_initial: "exact_ok E T (initialBuilder r wl)"
  by (simp add: exact_ok_def initialBuilder_def)

lemma exact_ok_constructing:
  assumes "constructing E s0 s" "builder_inv s0" "exact_ok E T s0" "answersGrow E T" "TH E = Some T"
  shows "exact_ok E T s"
  using assms
proof (induction rule: constructing.induct)
  case start
  then show ?case by simp
next
  case (pop s F wl)
  let ?t = "s\<lparr>FunctionWL := wl\<rparr>"
  have inv: "builder_inv ?t"
    using builder_inv_constructing [OF pop.hyps(1) pop.prems(1)] by simp
  have ok: "exact_ok E T ?t" using pop by simp
  have st: "sites_kept ?t (snd (processFunction E F ?t)) \<and> res_grows E T ?t (snd (processFunction E F ?t))"
    by (rule processFunction_exact [OF inv pop.prems(3)])
  show ?case
    by (rule exact_ok_step [OF ok]) (use st in simp_all)
next
  case (dyn s CS NewTargetsFound s')
  have inv: "builder_inv s"
    by (rule builder_inv_constructing [OF dyn.hyps(1) dyn.prems(1)])
  have ok: "exact_ok E T s" using dyn by simp
  show ?case
    by (rule exact_ok_constructDynamicCall [OF inv ok dyn.prems(3,4) dyn.hyps(3)])
qed

lemma steady_run:
  "buildCallGraph S (fpEnv steady) (initialBuilder () [Some 0]) = Some (Inr steadyFinal)"
  by (simp add: eval_defs steady_def steadyFinal_def fixpointLoop.simps drainWorklist.simps
        numeral_2_eq_2 image_iff)

lemma steady_answersGrow: "answersGrow (fpEnv steady) noTypes"
  by (simp add: answersGrow_def siteAnswer_def fpEnv_def steady_def)

subsection \<open>Recorded sites\<close>










section \<open>Recorded counts and the edges of a site\<close>

text \<open>
  Claim C1, as the code has it. When \<^verbatim>\<open>buildCallGraph\<close> returns, every recorded indirect
  call site has a caller vertex, and the number of out-edges of that vertex labelled with
  the site is at least the recorded count. The two are equal when the answers of the
  resolver never lose a target. (The count is the size of the largest target set the
  resolver returned for the site; the edges collect every target ever returned.)
\<close>

theorem indirect_count_and_edges:
  assumes "buildCallGraph S E (initialBuilder r wl) = Some (Inr s')"
    and "map_of (IndirectCalls s') n = Some c"
  shows "\<exists>v. FunctionVertexMap s' (fst n) = Some v \<and>
             c \<le> length (filter (\<lambda>e. edgeCS e = n) (out_edges v (CallGraph s'))) \<and>
             (TH E = Some T \<and> answersGrow E T \<longrightarrow>
                c = length (filter (\<lambda>e. edgeCS e = n) (out_edges v (CallGraph s'))))"
proof -
  have c: "constructing E (initialBuilder r wl) s'"
    using assms(1) by (simp add: buildCallGraph_def constructing_fixpointLoop)
  have inv: "builder_inv s'"
    by (rule builder_inv_constructing [OF c builder_inv_initial])
  have ok: "counts_ok s'"
    by (rule counts_ok_constructing [OF c counts_ok_initial])
  have "fst n \<in> VisitedFunctions s'"
    using inv assms(2) unfolding builder_inv_def sites_ok_def by blast
  then obtain v where v: "FunctionVertexMap s' (fst n) = Some v"
    using inv unfolding builder_inv_def visited_ok_def by blast
  have se: "siteEdges s' n = filter (\<lambda>e. edgeCS e = n) (out_edges v (CallGraph s'))"
    by (simp add: siteEdges_def v)
  have le: "c \<le> length (siteEdges s' n)"
    using ok assms(2) unfolding counts_ok_def by blast
  have eq: "c = length (siteEdges s' n)" if "TH E = Some T" "answersGrow E T"
    using exact_ok_constructing [OF c builder_inv_initial exact_ok_initial that(2,1)] assms(2)
    unfolding exact_ok_def by blast
  show ?thesis using v le eq unfolding se by blast
qed

theorem indirect_count_and_edges_witness:
  "\<exists>v. FunctionVertexMap steadyFinal (fst ((0, 0) :: inst)) = Some v \<and>
       (2 :: nat) = length (filter (\<lambda>e. edgeCS e = (0, 0)) (out_edges v (CallGraph steadyFinal)))"
proof -
  have a: "map_of (IndirectCalls steadyFinal) (0, 0) = Some 2"
    by (simp add: steadyFinal_def)
  have b: "TH (fpEnv steady) = Some noTypes" by (simp add: fpEnv_def)
  show ?thesis
    using indirect_count_and_edges [OF steady_run [of Sound] a, of noTypes] b steady_answersGrow
    by blast
qed

text \<open>
  The claim as stated, with equality, fails for a resolver whose second answer does not
  contain its first: the site ends with count 2 and three edges.
\<close>

theorem indirect_count_counterexample:
  "buildCallGraph Sound (fpEnv changing) (initialBuilder 0 [Some 0]) = Some (Inr changingFinal)
   \<and> map_of (IndirectCalls changingFinal) (0, 0) = Some 2
   \<and> siteEdges changingFinal (0, 0) = [(0, 1, (0, 0)), (0, 2, (0, 0)), (0, 3, (0, 0))]
   \<and> length (siteEdges changingFinal (0, 0)) = 3"
  using changing_run [of Sound]
  by (simp add: changingFinal_def siteEdges_def out_edges_def edgeCS_def)

section \<open>Resolving one indirect call site\<close>



section \<open>Nothing is taken back\<close>



section \<open>One edge for each caller, callee and call site\<close>





section \<open>The order of the resolver hooks\<close>




section \<open>The flow function along a call site is the identity\<close>

text \<open>
  Claim C10. \<^verbatim>\<open>MapFactsAlongsideCallSite::computeTargets\<close> returns exactly the singleton of
  its source fact, whatever the fact (zero or not) and whatever the predicate, and the
  return statement that kills the fact is never the one taken.
\<close>

theorem computeTargets_identity:
  "computeTargets isLLVMZeroValue Predicate CB Source = {Source}
   \<and> fst (computeTargets_at isLLVMZeroValue Predicate CB Source) \<noteq> ReturnKill"
  by (simp add: computeTargets_def computeTargets_at_def)

theorem computeTargets_identity_witness:
  "computeTargets (\<lambda>v. v = (0::nat)) (\<lambda>cb v. True) () 0 = {0}
   \<and> fst (computeTargets_at (\<lambda>v. v = (0::nat)) (\<lambda>cb v. True) () 0) \<noteq> ReturnKill"
  using computeTargets_identity [of "\<lambda>v. v = (0::nat)" "\<lambda>cb v. True" "()" 0] by simp

section \<open>The virtual-call test\<close>

text \<open>
  Claim C6. An instruction is classified as a virtual call exactly when it is a call,
  a receiver type is found for it, the type hierarchy knows that type, the type has a
  vtable, and the vtable index extracted for the call is not negative. The query of the
  ICFG is the same test.
\<close>

theorem virtual_call_iff:
  "internalIsVirtualFunctionCall D n T =
     (isCallBase D n \<and>
      (\<exists>RecType. getReceiverType D n = Some RecType \<and> hasType T RecType \<and> hasVFTable T RecType) \<and>
      0 \<le> getVFTIndex D n)
   \<and> isVirtualFunctionCallImpl D T n = internalIsVirtualFunctionCall D n T"
  by (auto simp: internalIsVirtualFunctionCall_def isVirtualFunctionCallImpl_def split: option.splits)

theorem virtual_call_iff_witness:
  "\<not> internalIsVirtualFunctionCall fpProgram (0, 0) noTypes
   \<and> \<not> isVirtualFunctionCallImpl fpProgram noTypes (0, 0)"
  using virtual_call_iff [of fpProgram "(0, 0)" noTypes] by (simp add: fpProgram_def)

section \<open>Callees of a call site\<close>

text \<open>
  Claim C8. \<^verbatim>\<open>getCalleesOfCallAt(n)\<close> returns, each as often as it occurs, the functions at the
  targets of the edges that leave the vertex of the function of \<open>n\<close> and are labelled
  \<open>n\<close>. For an instruction that is not a call, or whose function has no vertex, the
  result is empty. The query is a total function: it has no error result.
\<close>

theorem getCalleesOfCallAt_spec:
  "mset (getCalleesOfCallAtImpl D FVM g n) =
     (if isCallBase D n
      then (case FVM (fst n) of
              None \<Rightarrow> {#}
            | Some v \<Rightarrow> image_mset (\<lambda>(u, t, cs). vertices g ! t)
                          (filter_mset (\<lambda>(u, t, cs). u = v \<and> cs = n) (mset (edges g))))
      else {#})"
  apply (simp add: getCalleesOfCallAtImpl_def out_edges_def edgeTarget_def edgeCS_def split: option.splits)
  apply (auto simp: case_prod_beta intro!: arg_cong2[where f=image_mset] filter_mset_cong)
  done

theorem getCalleesOfCallAt_spec_witness:
  "getCalleesOfCallAtImpl fpProgram [0 \<mapsto> 0, 1 \<mapsto> 1]
     \<lparr>vertices = [0, 1], edges = [(0, 1, (0, 0))]\<rparr> (0, 0) = [1]
   \<and> getCalleesOfCallAtImpl fpProgram [0 \<mapsto> 0, 1 \<mapsto> 1]
     \<lparr>vertices = [0, 1], edges = [(0, 1, (0, 0))]\<rparr> (0, 1) = []
   \<and> getCalleesOfCallAtImpl fpProgram Map.empty
     \<lparr>vertices = [0, 1], edges = [(0, 1, (0, 0))]\<rparr> (0, 0) = []"
  using getCalleesOfCallAt_spec [of fpProgram "[0 \<mapsto> 0, 1 \<mapsto> 1]"
          "\<lparr>vertices = [0, 1], edges = [(0, 1, (0, 0))]\<rparr>" "(0, 0)"]
        getCalleesOfCallAt_spec [of fpProgram "[0 \<mapsto> 0, 1 \<mapsto> 1]"
          "\<lparr>vertices = [0, 1], edges = [(0, 1, (0, 0))]\<rparr>" "(0, 1)"]
        getCalleesOfCallAt_spec [of fpProgram Map.empty
          "\<lparr>vertices = [0, 1], edges = [(0, 1, (0, 0))]\<rparr>" "(0, 0)"]
  by (simp add: fpProgram_def isCallBase_def instrAt_def)

section \<open>Entry points\<close>






section \<open>The soundness parameter\<close>

lemma buildCallGraph_any_soundness: "buildCallGraph S = buildCallGraph S'"
  by (intro ext) (simp add: buildCallGraph_def)

text \<open>
  Claim C9, as the code has it. The soundness value is handed to \<^verbatim>\<open>buildCallGraph\<close>, which
  does not use it, and is not among the arguments of the resolver factory: the resolver
  that is created, the run of the fixed-point loop (its hook calls included) and the
  whole construction are the same for any two soundness values.
\<close>

theorem soundness_not_used:
  "createdResolver X D CGType T PT S = createdResolver X D CGType T PT S'
   \<and> buildCallGraph S E s = buildCallGraph S' E s
   \<and> LLVMBasedICFG X D CGType EntryPoints T PT S IncludeGlobals =
       LLVMBasedICFG X D CGType EntryPoints T PT S' IncludeGlobals"
  by (simp only: LLVMBasedICFG_def createdResolver_def buildCallGraph_any_soundness [of S S'])

theorem soundness_not_used_witness:
  "LLVMBasedICFG recording fpProgram CHA [''main''] None None Sound False =
     LLVMBasedICFG recording fpProgram CHA [''main''] None None Unsound False"
  by (rule soundness_not_used [THEN conjunct2, THEN conjunct2])

text \<open>
  The soundness value does not reach the resolver: a resolver that keeps everything its
  factory was given is in the same state whether the ICFG is built as sound or as unsound.
\<close>

theorem soundness_to_resolver_counterexample:
  "snd (createdResolver recording fpProgram CHA None None Sound) =
     (CHA, fpProgram, Some noTypes, None)
   \<and> snd (createdResolver recording fpProgram CHA None None Unsound) =
     (CHA, fpProgram, Some noTypes, None)"
  by (simp add: createdResolver_def recording_def builderTH_def builderPT_def)

end
